theory Spec2Isabelle
  imports Complex_Main
begin

section \<open>The multi-tier cache manager of src/core/cache-manager.ts\<close>

text \<open>
  A shallow embedding of the class \<open>CacheManager\<close> and of its eviction policies.
  Timestamps (\<open>Date.now()\<close>) are integers (milliseconds), a TTL is an integer or one
  of the two infinities, entry counts and capacities are natural numbers, ratios and
  scores are rationals.  Every operation receives the clock reading \<open>now\<close> as an
  argument.  The state of the manager and the files of its cache directory are one
  record that each operation returns updated.

  The operations are modelled settled: the state an operation returns is the state
  once every asynchronous step it started has finished, and the next operation starts
  from there.  For \<open>set\<close>, \<open>delete\<close>, \<open>clear\<close> and the maintenance run this is the
  state their caller sees, since they await every step.  \<open>get\<close> starts
  \<open>promoteToL1\<close> without awaiting it: its return value is fixed before the
  promotion, but a caller that goes on at once can see the tiers while the promotion's
  evictions are still under way (a victim already out of one tier and not yet in the
  next).  No statement below is about such an intermediate state.
\<close>

subsection \<open>JavaScript \<open>Map\<close>: an association list in insertion order\<close>

text \<open>
  A JavaScript \<open>Map\<close> iterates in insertion order; \<open>set\<close> on a key that is
  present replaces the value and keeps the key's position, \<open>set\<close> on a new key
  appends, \<open>delete\<close> removes the key.
\<close>

type_synonym ('k, 'a) jsmap = "('k \<times> 'a) list"

definition Map_get :: "('k, 'a) jsmap \<Rightarrow> 'k \<Rightarrow> 'a option" where
  "Map_get m k = map_of m k"

definition Map_has :: "('k, 'a) jsmap \<Rightarrow> 'k \<Rightarrow> bool" where
  "Map_has m k = (k \<in> set (map fst m))"

fun Map_set :: "('k, 'a) jsmap \<Rightarrow> 'k \<Rightarrow> 'a \<Rightarrow> ('k, 'a) jsmap" where
  "Map_set [] k v = [(k, v)]"
| "Map_set ((k', v') # m) k v =
     (if k' = k then (k, v) # m else (k', v') # Map_set m k v)"

definition Map_delete :: "('k, 'a) jsmap \<Rightarrow> 'k \<Rightarrow> ('k, 'a) jsmap" where
  "Map_delete m k = filter (\<lambda>kv. fst kv \<noteq> k) m"

definition Map_size :: "('k, 'a) jsmap \<Rightarrow> nat" where
  "Map_size m = length m"

subsection \<open>Priorities, policies, entries\<close>

datatype CachePriority = LOW | NORMAL | HIGH | CRITICAL

text \<open>The numeric values of the enum \<open>CachePriority\<close>.\<close>

fun priority_value :: "CachePriority \<Rightarrow> nat" where
  "priority_value LOW = 1"
| "priority_value NORMAL = 2"
| "priority_value HIGH = 3"
| "priority_value CRITICAL = 4"

datatype EvictionPolicyType = LRU | LFU | FIFO | FILO | ADAPTIVE

datatype Level = L1 | L2 | L3

type_synonym Buffer = string

text \<open>
  A TTL is a JavaScript \<open>number\<close>: a count of milliseconds, \<open>Infinity\<close> or
  \<open>-Infinity\<close>.  \<open>NaN\<close> is falsy and every TTL goes through \<open>||\<close> before it is
  stored, so \<open>NaN\<close> is the absent TTL.  \<open>truthy\<close> is the test of \<open>||\<close>, \<open>&&\<close> and
  \<open>!\<close>; \<open>exceeds age t\<close> is \<open>age > t\<close> for a finite \<open>age\<close>.
\<close>

datatype Ttl = Ms int | PosInfinity | NegInfinity

fun truthy :: "Ttl \<Rightarrow> bool" where
  "truthy (Ms t) = (t \<noteq> 0)"
| "truthy PosInfinity = True"
| "truthy NegInfinity = True"

fun exceeds :: "int \<Rightarrow> Ttl \<Rightarrow> bool" where
  "exceeds age (Ms t) = (age > t)"
| "exceeds age PosInfinity = False"
| "exceeds age NegInfinity = True"

text \<open>\<open>ttl || d\<close>.\<close>

fun ttl_or :: "Ttl option \<Rightarrow> Ttl \<Rightarrow> Ttl" where
  "ttl_or None d = d"
| "ttl_or (Some t) d = (if truthy t then t else d)"

text \<open>\<open>JSON.stringify\<close> writes an infinite number as \<open>null\<close>.\<close>

fun json_number :: "Ttl \<Rightarrow> int option" where
  "json_number (Ms t) = Some t"
| "json_number PosInfinity = None"
| "json_number NegInfinity = None"

text \<open>
  The interface \<open>CacheEntry\<close>.  The field \<open>value\<close> is \<open>val\<close> here and it is
  optional, because \<open>demoteToL2\<close> deletes it from a compressed entry; \<open>size\<close> is
  \<open>esize\<close>.  The field \<open>key\<close> is left out of the record: an entry is created
  for a key, every map stores it under \<open>entry.key\<close> and nothing assigns the field,
  so the pair of a key and a record stands for the object, and a function of the
  source that takes an entry takes the key with it here.
\<close>

record 'v CacheEntry =
  val :: "'v option"
  esize :: nat
  priority :: CachePriority
  created :: int
  accessed :: int
  hits :: nat
  ttl :: "Ttl option"
  compressed :: "Buffer option"
  level :: Level

subsection \<open>Eviction policies\<close>

text \<open>\<open>entry.priority < CachePriority.HIGH\<close>: the entry may be chosen as a victim.\<close>

definition evictable :: "'v CacheEntry \<Rightarrow> bool" where
  "evictable e = (priority_value (priority e) < priority_value HIGH)"

text \<open>
  The loop of \<open>LRUPolicy.selectVictim\<close>.  \<open>oldestTime\<close> starts at \<open>Infinity\<close>,
  which is \<open>None\<close> here; \<open>victimKey\<close> starts at \<open>null\<close>.
\<close>

fun below :: "int \<Rightarrow> int option \<Rightarrow> bool" where
  "below a None = True"
| "below a (Some b) = (a < b)"

fun LRU_scan ::
  "(string, 'v CacheEntry) jsmap \<Rightarrow> int option \<Rightarrow> string option \<Rightarrow> string option" where
  "LRU_scan [] oldestTime victimKey = victimKey"
| "LRU_scan ((k, entry) # entries) oldestTime victimKey =
     (if evictable entry \<and> below (accessed entry) oldestTime
      then LRU_scan entries (Some (accessed entry)) (Some k)
      else LRU_scan entries oldestTime victimKey)"

definition LRU_selectVictim :: "(string, 'v CacheEntry) jsmap \<Rightarrow> string option" where
  "LRU_selectVictim entries = LRU_scan entries None None"

text \<open>\<open>LFUPolicy.selectVictim\<close>: the same loop on the hit counter.\<close>

fun LFU_scan ::
  "(string, 'v CacheEntry) jsmap \<Rightarrow> int option \<Rightarrow> string option \<Rightarrow> string option" where
  "LFU_scan [] minHits victimKey = victimKey"
| "LFU_scan ((k, entry) # entries) minHits victimKey =
     (if evictable entry \<and> below (int (hits entry)) minHits
      then LFU_scan entries (Some (int (hits entry))) (Some k)
      else LFU_scan entries minHits victimKey)"

definition LFU_selectVictim :: "(string, 'v CacheEntry) jsmap \<Rightarrow> string option" where
  "LFU_selectVictim entries = LFU_scan entries None None"

subsection \<open>Configuration\<close>

record CacheConfig =
  maxL1Size :: nat
  maxL2Size :: nat
  maxL3Size :: nat
  l3Directory :: string
  compressionThreshold :: nat
  evictionPolicy :: EvictionPolicyType
  defaultTtl :: Ttl
  enableDiskCache :: bool
  enableCompression :: bool
  maintenanceInterval :: nat
  accessPatternWindowSize :: nat
  predictiveCaching :: bool

text \<open>
  The constructor's argument \<open>Partial<CacheConfig>\<close>: every option may be absent.
\<close>

record PartialConfig =
  p_maxL1Size :: "nat option"
  p_maxL2Size :: "nat option"
  p_maxL3Size :: "nat option"
  p_l3Directory :: "string option"
  p_compressionThreshold :: "nat option"
  p_evictionPolicy :: "EvictionPolicyType option"
  p_defaultTtl :: "Ttl option"
  p_enableDiskCache :: "bool option"
  p_enableCompression :: "bool option"
  p_maintenanceInterval :: "nat option"
  p_accessPatternWindowSize :: "nat option"
  p_predictiveCaching :: "bool option"

text \<open>\<open>x || d\<close> on sizes: an absent or zero \<open>x\<close> gives the default \<open>d\<close>.\<close>

fun or_default :: "'a::zero option \<Rightarrow> 'a \<Rightarrow> 'a" where
  "or_default None d = d"
| "or_default (Some x) d = (if x = 0 then d else x)"

text \<open>The constructor's \<open>this.config = {...}\<close>.\<close>

definition mk_config :: "PartialConfig \<Rightarrow> CacheConfig" where
  "mk_config p =
     \<lparr> maxL1Size = or_default (p_maxL1Size p) 1000,
       maxL2Size = or_default (p_maxL2Size p) 5000,
       maxL3Size = or_default (p_maxL3Size p) 10000,
       l3Directory = (case p_l3Directory p of None \<Rightarrow> ''./cache''
                      | Some d \<Rightarrow> if d = [] then ''./cache'' else d),
       compressionThreshold = or_default (p_compressionThreshold p) 1024,
       evictionPolicy = (case p_evictionPolicy p of None \<Rightarrow> LRU | Some t \<Rightarrow> t),
       defaultTtl = ttl_or (p_defaultTtl p) (Ms 3600000),
       enableDiskCache = (p_enableDiskCache p \<noteq> Some False),
       enableCompression = (p_enableCompression p \<noteq> Some False),
       maintenanceInterval = or_default (p_maintenanceInterval p) 300000,
       accessPatternWindowSize = or_default (p_accessPatternWindowSize p) 1000,
       predictiveCaching = (p_predictiveCaching p = Some True) \<rparr>"

text \<open>
  What the class takes from its libraries, with the configuration: the SHA-256 hex
  digest of a key, \<open>JSON.stringify\<close> and \<open>JSON.parse\<close> on values (\<open>parse\<close> gives
  \<open>None\<close> where \<open>JSON.parse\<close> throws), zlib's \<open>gzip\<close> and \<open>gunzip\<close>
  (\<open>None\<close> where \<open>gunzip\<close> throws).  Values are taken to be serializable:
  \<open>stringify\<close> is total.
\<close>

record 'v Env =
  config :: CacheConfig
  sha256 :: "string \<Rightarrow> string"
  stringify :: "'v \<Rightarrow> string"
  parse :: "string \<Rightarrow> 'v option"
  gzip :: "string \<Rightarrow> Buffer"
  gunzip :: "Buffer \<Rightarrow> string option"

subsection \<open>The state of a cache manager, with its directory on disk\<close>

record Stats =
  totalHits :: nat
  totalMisses :: nat
  l1Hits :: nat
  l2Hits :: nat
  l3Hits :: nat
  evictions :: nat
  compressions :: nat
  decompressions :: nat
  diskWrites :: nat
  diskReads :: nat

record CacheStats = Stats +
  hitRate :: rat
  avgAccessTime :: rat
  avgCompressionRatio :: rat

text \<open>
  A file of the disk tier holds the JSON text of \<open>{key, data, priority, created, ttl,
  compressed}\<close>.  Here the text is kept as its fields; the flag \<open>compressed\<close> is the
  constructor of \<open>d_data\<close>: \<open>Packed\<close> for the bytes of a gzip buffer, \<open>Plain\<close> for
  the JSON text of a value, absent when the value is \<open>undefined\<close>.  \<open>d_ttl\<close> is
  absent for \<open>null\<close>.  \<open>Unparseable\<close> is a file that \<open>JSON.parse\<close> rejects.
\<close>

datatype DiskData = Plain "string option" | Packed Buffer

record DiskRecord =
  d_key :: string
  d_data :: DiskData
  d_priority :: CachePriority
  d_created :: int
  d_ttl :: "int option"

datatype FileContent = Unparseable | Parsed DiskRecord

text \<open>
  The fields of the class, and the files of the cache directory (path to content);
  \<open>writable\<close> is false when \<open>fs.writeFile\<close> fails (a missing directory, a full or
  read-only disk).
\<close>

record 'v CacheManager =
  l1Cache :: "(string, 'v CacheEntry) jsmap"
  l2Cache :: "(string, 'v CacheEntry) jsmap"
  l3Index :: "(string, string) jsmap"
  stats :: Stats
  accessTimes :: "int list"
  compressionRatios :: "rat list"
  predictiveCache :: "(string, rat) jsmap"
  files :: "(string, FileContent) jsmap"
  writable :: bool

definition zero_stats :: Stats where
  "zero_stats =
     \<lparr> totalHits = 0, totalMisses = 0, l1Hits = 0, l2Hits = 0, l3Hits = 0, evictions = 0,
       compressions = 0, decompressions = 0, diskWrites = 0, diskReads = 0 \<rparr>"

text \<open>A new manager over a given directory content.\<close>

definition new_CacheManager :: "(string, FileContent) jsmap \<Rightarrow> bool \<Rightarrow> 'v CacheManager" where
  "new_CacheManager fs w =
     \<lparr> l1Cache = [], l2Cache = [], l3Index = [], stats = zero_stats, accessTimes = [],
       compressionRatios = [], predictiveCache = [], files = fs, writable = w \<rparr>"

subsection \<open>The file system calls\<close>

text \<open>\<open>None\<close> is a rejected promise: \<open>unlink\<close> and \<open>readFile\<close> fail on a missing file.\<close>

definition fs_unlink :: "string \<Rightarrow> 'v CacheManager \<Rightarrow> 'v CacheManager option" where
  "fs_unlink path s =
     (if Map_has (files s) path then Some (s\<lparr>files := Map_delete (files s) path\<rparr>) else None)"

definition fs_readFile :: "string \<Rightarrow> 'v CacheManager \<Rightarrow> FileContent option" where
  "fs_readFile path s = Map_get (files s) path"

definition fs_writeFile ::
  "string \<Rightarrow> FileContent \<Rightarrow> 'v CacheManager \<Rightarrow> 'v CacheManager option" where
  "fs_writeFile path content s =
     (if writable s then Some (s\<lparr>files := Map_set (files s) path content\<rparr>) else None)"

text \<open>\<open>try { await fs.unlink(p) } catch { }\<close>.\<close>

definition unlink_ignoring :: "string \<Rightarrow> 'v CacheManager \<Rightarrow> 'v CacheManager" where
  "unlink_ignoring path s = (case fs_unlink path s of None \<Rightarrow> s | Some s' \<Rightarrow> s')"

subsection \<open>Entries, expiry, policy dispatch\<close>

text \<open>\<open>createEntry\<close>: \<open>ttl: ttl || this.config.defaultTtl\<close>.\<close>

definition createEntry ::
  "'v Env \<Rightarrow> 'v \<Rightarrow> CachePriority \<Rightarrow> Ttl option \<Rightarrow> int \<Rightarrow> 'v CacheEntry" where
  "createEntry env v p ttlArg now =
     \<lparr> val = Some v, esize = length (stringify env v), priority = p,
       created = now, accessed = now, hits = 0,
       ttl = Some (ttl_or ttlArg (defaultTtl (config env))),
       compressed = None, level = L1 \<rparr>"

text \<open>
  \<open>isExpired\<close>: \<open>if (!entry.ttl) return false; return Date.now() - entry.created >
  entry.ttl\<close>.
\<close>

definition isExpired :: "'v CacheEntry \<Rightarrow> int \<Rightarrow> bool" where
  "isExpired entry now =
     (case ttl entry of None \<Rightarrow> False
      | Some t \<Rightarrow> if \<not> truthy t then False else exceeds (now - created entry) t)"

text \<open>\<open>createEvictionPolicy\<close>: LFU for \<open>lfu\<close>, LRU for everything else.\<close>

definition selectVictim ::
  "EvictionPolicyType \<Rightarrow> (string, 'v CacheEntry) jsmap \<Rightarrow> string option" where
  "selectVictim pol entries =
     (case pol of LFU \<Rightarrow> LFU_selectVictim entries | _ \<Rightarrow> LRU_selectVictim entries)"

definition onAdd :: "EvictionPolicyType \<Rightarrow> int \<Rightarrow> 'v CacheEntry \<Rightarrow> 'v CacheEntry" where
  "onAdd pol now entry =
     (case pol of LFU \<Rightarrow> entry\<lparr>hits := 1, accessed := now\<rparr>
      | _ \<Rightarrow> entry\<lparr>accessed := now\<rparr>)"

definition onAccess :: "EvictionPolicyType \<Rightarrow> int \<Rightarrow> 'v CacheEntry \<Rightarrow> 'v CacheEntry" where
  "onAccess pol now entry =
     (case pol of LFU \<Rightarrow> entry\<lparr>hits := hits entry + 1, accessed := now\<rparr>
      | _ \<Rightarrow> entry\<lparr>accessed := now\<rparr>)"

lemma onAdd_fields [simp]:
  "ttl (onAdd pol now e) = ttl e" "created (onAdd pol now e) = created e"
  "val (onAdd pol now e) = val e" "priority (onAdd pol now e) = priority e"
  "compressed (onAdd pol now e) = compressed e" "level (onAdd pol now e) = level e"
  "esize (onAdd pol now e) = esize e"
  by (cases pol; simp add: onAdd_def)+

subsection \<open>Basic facts about the map operations\<close>

lemma Map_get_Map_set: "Map_get (Map_set m k v) k' = (if k' = k then Some v else Map_get m k')"
  by (induction m) (auto simp: Map_get_def)

lemma Map_get_Map_delete:
  "Map_get (Map_delete m k) k' = (if k' = k then None else Map_get m k')"
  by (induction m) (auto simp: Map_get_def Map_delete_def)

lemma Map_has_get: "Map_has m k = (Map_get m k \<noteq> None)"
  by (induction m) (auto simp: Map_has_def Map_get_def)

lemma length_Map_delete_le: "length (Map_delete m k) \<le> length m"
  by (simp add: Map_delete_def)

lemma length_Map_delete_less: "Map_get m k = Some v \<Longrightarrow> length (Map_delete m k) < length m"
proof (induction m)
  case Nil
  then show ?case by (simp add: Map_get_def)
next
  case (Cons a m)
  show ?case
  proof (cases "fst a = k")
    case True
    then show ?thesis by (simp add: Map_delete_def le_imp_less_Suc)
  next
    case False
    then have "Map_get m k = Some v" using Cons.prems by (cases a) (simp add: Map_get_def)
    then have "length (Map_delete m k) < length m" by (rule Cons.IH)
    then show ?thesis using False by (simp add: Map_delete_def)
  qed
qed


subsection \<open>The disk tier\<close>

text \<open>\<open>path.join(this.config.l3Directory, `${hash}.cache`)\<close>.\<close>

definition cache_path :: "'v Env \<Rightarrow> string \<Rightarrow> string" where
  "cache_path env k = l3Directory (config env) @ ''/'' @ sha256 env k @ ''.cache''"

text \<open>
  \<open>enforceL3Size\<close>: while the index is over capacity, remove its first key, whatever
  \<open>unlink\<close> does.
\<close>

function enforceL3Size :: "'v Env \<Rightarrow> 'v CacheManager \<Rightarrow> 'v CacheManager" where
  "enforceL3Size env s =
     (if Map_size (l3Index s) > maxL3Size (config env) then
        (case l3Index s of
           [] \<Rightarrow> s
         | (oldestKey, filePath) # _ \<Rightarrow>
             enforceL3Size env
               ((unlink_ignoring filePath s)
                  \<lparr>l3Index := Map_delete (l3Index s) oldestKey,
                   stats := (stats s)\<lparr>evictions := evictions (stats s) + 1\<rparr>\<rparr>))
      else s)"
  by pat_completeness auto
termination
proof (relation "measure (\<lambda>(env, s). length (l3Index s))")
  show "wf (measure (\<lambda>(env :: 'v Env, s :: 'v CacheManager). length (l3Index s)))"
    by simp
next
  fix env :: "'v Env" and s :: "'v CacheManager" and x21 x22 oldestKey filePath
  assume "l3Index s = x21 # x22" and "(oldestKey, filePath) = x21"
  then have "l3Index s = (oldestKey, filePath) # x22" by simp
  moreover have "length (Map_delete x22 oldestKey) \<le> length x22"
    by (rule length_Map_delete_le)
  then have "length (Map_delete x22 oldestKey) < Suc (length x22)"
    by simp
  ultimately show
    "((env, (unlink_ignoring filePath s)
        \<lparr>l3Index := Map_delete (l3Index s) oldestKey,
         stats := (stats s)\<lparr>evictions := evictions (stats s) + 1\<rparr>\<rparr>), env, s)
      \<in> measure (\<lambda>(env, s). length (l3Index s))"
    by (simp add: Map_delete_def)
qed

declare enforceL3Size.simps [simp del]

text \<open>
  \<open>demoteToL3\<close>.  The record's \<open>data\<close> is \<open>entry.compressed || entry.value\<close>, and
  \<open>JSON.stringify\<close> of the record writes a buffer as its bytes, a value as its JSON
  text and an infinite TTL as \<open>null\<close>.  A failed write is logged and nothing else
  happens.
\<close>

definition demoteToL3 ::
  "'v Env \<Rightarrow> string \<Rightarrow> 'v CacheEntry \<Rightarrow> 'v CacheManager \<Rightarrow> 'v CacheManager" where
  "demoteToL3 env k entry s =
     (let filePath = cache_path env k;
          data = \<lparr> d_key = k,
                   d_data = (case compressed entry of Some b \<Rightarrow> Packed b
                             | None \<Rightarrow> Plain (map_option (stringify env) (val entry))),
                   d_priority = priority entry, d_created = created entry,
                   d_ttl = (case ttl entry of None \<Rightarrow> None | Some t \<Rightarrow> json_number t) \<rparr>
      in case fs_writeFile filePath (Parsed data) s of
           None \<Rightarrow> s
         | Some s1 \<Rightarrow>
             enforceL3Size env
               (s1\<lparr>l3Index := Map_set (l3Index s1) k filePath,
                   stats := (stats s1)\<lparr>diskWrites := diskWrites (stats s1) + 1\<rparr>\<rparr>))"

text \<open>
  \<open>loadFromDisk\<close>: the record's value and priority, or \<open>None\<close> for \<open>null\<close>.  Its
  \<open>try\<close> block covers the whole body, so a missing file, an unparseable file and a
  failed \<open>gunzip\<close> or \<open>JSON.parse\<close> of the payload all return \<open>null\<close>; it never
  throws.  \<open>JSON.parse(content)\<close> reads the whole record, the JSON text of a plain
  value with it, before the TTL is looked at: a value text that \<open>parse\<close> rejects is
  an unparseable file.
\<close>

definition loadFromDisk ::
  "'v Env \<Rightarrow> string \<Rightarrow> int \<Rightarrow> 'v CacheManager \<Rightarrow>
   ('v option \<times> CachePriority) option \<times> 'v CacheManager" where
  "loadFromDisk env filePath now s =
     (case fs_readFile filePath s of
        None \<Rightarrow> (None, s)
      | Some Unparseable \<Rightarrow> (None, s)
      | Some (Parsed data) \<Rightarrow>
          (case (case d_data data of
                   Packed b \<Rightarrow> Some (Inr b)
                 | Plain None \<Rightarrow> Some (Inl None)
                 | Plain (Some json) \<Rightarrow>
                     (case parse env json of None \<Rightarrow> None | Some v \<Rightarrow> Some (Inl (Some v))))
           of
             None \<Rightarrow> (None, s)
           | Some payload \<Rightarrow>
               if (case d_ttl data of None \<Rightarrow> False
                   | Some t \<Rightarrow> t \<noteq> 0 \<and> now - d_created data > t)
               then (None, unlink_ignoring filePath s)
               else
                 (case payload of
                    Inr b \<Rightarrow>
                      (case gunzip env b of
                         None \<Rightarrow> (None, s)
                       | Some json \<Rightarrow>
                           (case parse env json of
                              None \<Rightarrow> (None, s)
                            | Some v \<Rightarrow>
                                (Some (Some v, d_priority data),
                                 s\<lparr>stats := (stats s)
                                      \<lparr>decompressions := decompressions (stats s) + 1,
                                       diskReads := diskReads (stats s) + 1\<rparr>\<rparr>)))
                  | Inl v \<Rightarrow>
                      (Some (v, d_priority data),
                       s\<lparr>stats := (stats s)\<lparr>diskReads := diskReads (stats s) + 1\<rparr>\<rparr>))))"

lemma unlink_ignoring_fields [simp]:
  "l1Cache (unlink_ignoring p s) = l1Cache s"
  "l2Cache (unlink_ignoring p s) = l2Cache s"
  "l3Index (unlink_ignoring p s) = l3Index s"
  "stats (unlink_ignoring p s) = stats s"
  "accessTimes (unlink_ignoring p s) = accessTimes s"
  "compressionRatios (unlink_ignoring p s) = compressionRatios s"
  "predictiveCache (unlink_ignoring p s) = predictiveCache s"
  "writable (unlink_ignoring p s) = writable s"
  by (simp_all add: unlink_ignoring_def fs_unlink_def)

lemma enforceL3Size_fields:
  "l1Cache (enforceL3Size env s) = l1Cache s \<and> l2Cache (enforceL3Size env s) = l2Cache s \<and>
   accessTimes (enforceL3Size env s) = accessTimes s \<and>
   compressionRatios (enforceL3Size env s) = compressionRatios s \<and>
   predictiveCache (enforceL3Size env s) = predictiveCache s"
proof (induction env s rule: enforceL3Size.induct)
  case (1 env s)
  show ?case
  proof (cases "Map_size (l3Index s) > maxL3Size (config env)")
    case False
    then show ?thesis by (simp add: enforceL3Size.simps [of env s])
  next
    case True
    show ?thesis
    proof (cases "l3Index s")
      case Nil
      then show ?thesis using True by (simp add: enforceL3Size.simps [of env s])
    next
      case (Cons a m)
      obtain k p where a: "a = (k, p)" by (cases a)
      from "1.IH" [OF True Cons a [symmetric]] show ?thesis
        using True Cons a by (simp add: enforceL3Size.simps [of env s])
    qed
  qed
qed

lemma demoteToL3_fields:
  "l1Cache (demoteToL3 env k e s) = l1Cache s \<and> l2Cache (demoteToL3 env k e s) = l2Cache s \<and>
   accessTimes (demoteToL3 env k e s) = accessTimes s \<and>
   compressionRatios (demoteToL3 env k e s) = compressionRatios s \<and>
   predictiveCache (demoteToL3 env k e s) = predictiveCache s"
  by (simp add: demoteToL3_def Let_def fs_writeFile_def enforceL3Size_fields)

subsection \<open>The compressed tier\<close>

text \<open>
  \<open>enforceL2Size\<close>.  \<open>if (!victimKey) break\<close> leaves the loop on \<open>null\<close> and also on
  the empty string, which is falsy.  The policy returns a key of the map, so the
  lookup of the victim finds it.
\<close>

function enforceL2Size :: "'v Env \<Rightarrow> 'v CacheManager \<Rightarrow> 'v CacheManager" where
  "enforceL2Size env s =
     (if Map_size (l2Cache s) > maxL2Size (config env) then
        (case selectVictim (evictionPolicy (config env)) (l2Cache s) of
           None \<Rightarrow> s
         | Some victimKey \<Rightarrow>
             if victimKey = [] then s
             else
               (case Map_get (l2Cache s) victimKey of
                  None \<Rightarrow> s
                | Some victim \<Rightarrow>
                    enforceL2Size env
                      (let s1 = s\<lparr>l2Cache := Map_delete (l2Cache s) victimKey\<rparr>;
                           s2 = (if enableDiskCache (config env)
                                 then demoteToL3 env victimKey victim s1 else s1)
                       in s2\<lparr>stats := (stats s2)\<lparr>evictions := evictions (stats s2) + 1\<rparr>\<rparr>)))
      else s)"
  by pat_completeness auto
termination
proof (relation "measure (\<lambda>(env, s). length (l2Cache s))")
  show "wf (measure (\<lambda>(env :: 'v Env, s :: 'v CacheManager). length (l2Cache s)))"
    by simp
next
  fix env :: "'v Env" and s :: "'v CacheManager" and victimKey victim
  assume "Map_get (l2Cache s) victimKey = Some victim"
  then have "length (Map_delete (l2Cache s) victimKey) < length (l2Cache s)"
    by (rule length_Map_delete_less)
  then show
    "((env, let s1 = s\<lparr>l2Cache := Map_delete (l2Cache s) victimKey\<rparr>;
                s2 = (if enableDiskCache (config env)
                      then demoteToL3 env victimKey victim s1 else s1)
            in s2\<lparr>stats := (stats s2)\<lparr>evictions := evictions (stats s2) + 1\<rparr>\<rparr>), env, s)
      \<in> measure (\<lambda>(env, s). length (l2Cache s))"
    by (simp add: Let_def demoteToL3_fields)
qed

declare enforceL2Size.simps [simp del]

text \<open>\<open>compress\<close>: the buffer, the original size and the compressed size.\<close>

definition compress :: "'v Env \<Rightarrow> 'v \<Rightarrow> Buffer \<times> nat \<times> nat" where
  "compress env data =
     (let json = stringify env data; buffer = gzip env json
      in (buffer, length json, length buffer))"

text \<open>\<open>decompress\<close>; \<open>None\<close> where the source throws.\<close>

definition decompress :: "'v Env \<Rightarrow> 'v CacheEntry \<Rightarrow> 'v option" where
  "decompress env entry =
     (case compressed entry of
        None \<Rightarrow> None
      | Some b \<Rightarrow> (case gunzip env b of None \<Rightarrow> None | Some json \<Rightarrow> parse env json))"

text \<open>\<open>xs.push(x); if (xs.length > n) xs.shift()\<close>.\<close>

definition push_bounded :: "nat \<Rightarrow> 'a \<Rightarrow> 'a list \<Rightarrow> 'a list" where
  "push_bounded n x xs = (if length (xs @ [x]) > n then tl (xs @ [x]) else xs @ [x])"

text \<open>
  \<open>demoteToL2\<close>.  The ratio is \<open>originalSize / compressedSize\<close>; a gzip stream is
  never empty, so the divisor is positive in a real run.  An entry of the fast tier
  always has its value; for an entry without one the model skips the compression.
\<close>

definition demoteToL2 ::
  "'v Env \<Rightarrow> string \<Rightarrow> 'v CacheEntry \<Rightarrow> 'v CacheManager \<Rightarrow> 'v CacheManager" where
  "demoteToL2 env k entry s =
     (let e1 = entry\<lparr>level := L2\<rparr>;
          (e2, s1) =
            (if enableCompression (config env) \<and> esize e1 > compressionThreshold (config env)
             then
               (case val e1 of
                  None \<Rightarrow> (e1, s)
                | Some v \<Rightarrow>
                    (case compress env v of
                       (buffer, originalSize, compressedSize) \<Rightarrow>
                         (e1\<lparr>val := None, compressed := Some buffer\<rparr>,
                          s\<lparr>compressionRatios :=
                               push_bounded 100 (of_nat originalSize / of_nat compressedSize)
                                 (compressionRatios s),
                            stats := (stats s)\<lparr>compressions := compressions (stats s) + 1\<rparr>\<rparr>)))
             else (e1, s))
      in enforceL2Size env (s1\<lparr>l2Cache := Map_set (l2Cache s1) k e2\<rparr>))"

lemma enforceL2Size_l1Cache: "l1Cache (enforceL2Size env s) = l1Cache s"
proof (induction env s rule: enforceL2Size.induct)
  case (1 env s)
  show ?case
  proof (cases "Map_size (l2Cache s) > maxL2Size (config env)")
    case False
    then show ?thesis by (simp add: enforceL2Size.simps [of env s])
  next
    case over: True
    show ?thesis
    proof (cases "selectVictim (evictionPolicy (config env)) (l2Cache s)")
      case None
      then show ?thesis using over by (simp add: enforceL2Size.simps [of env s])
    next
      case (Some victimKey)
      show ?thesis
      proof (cases "victimKey = []")
        case True
        then show ?thesis using over Some by (simp add: enforceL2Size.simps [of env s])
      next
        case nonempty: False
        show ?thesis
        proof (cases "Map_get (l2Cache s) victimKey")
          case None
          then show ?thesis
            using over Some nonempty by (simp add: enforceL2Size.simps [of env s])
        next
          case (Some victim)
          from "1.IH" [OF over \<open>selectVictim _ _ = Some victimKey\<close> nonempty Some]
          show ?thesis
            using over \<open>selectVictim _ _ = Some victimKey\<close> nonempty Some
            by (simp add: enforceL2Size.simps [of env s] Let_def demoteToL3_fields)
        qed
      qed
    qed
  qed
qed

lemma demoteToL2_l1Cache: "l1Cache (demoteToL2 env k e s) = l1Cache s"
  by (simp add: demoteToL2_def Let_def enforceL2Size_l1Cache split: prod.splits option.splits)

subsection \<open>The fast tier\<close>

text \<open>\<open>enforceL1Size\<close>: the same loop, demoting the victim to the compressed tier.\<close>

function enforceL1Size :: "'v Env \<Rightarrow> 'v CacheManager \<Rightarrow> 'v CacheManager" where
  "enforceL1Size env s =
     (if Map_size (l1Cache s) > maxL1Size (config env) then
        (case selectVictim (evictionPolicy (config env)) (l1Cache s) of
           None \<Rightarrow> s
         | Some victimKey \<Rightarrow>
             if victimKey = [] then s
             else
               (case Map_get (l1Cache s) victimKey of
                  None \<Rightarrow> s
                | Some victim \<Rightarrow>
                    enforceL1Size env
                      (let s1 = s\<lparr>l1Cache := Map_delete (l1Cache s) victimKey\<rparr>;
                           s2 = demoteToL2 env victimKey victim s1
                       in s2\<lparr>stats := (stats s2)\<lparr>evictions := evictions (stats s2) + 1\<rparr>\<rparr>)))
      else s)"
  by pat_completeness auto
termination
proof (relation "measure (\<lambda>(env, s). length (l1Cache s))")
  show "wf (measure (\<lambda>(env :: 'v Env, s :: 'v CacheManager). length (l1Cache s)))"
    by simp
next
  fix env :: "'v Env" and s :: "'v CacheManager" and victimKey victim
  assume "Map_get (l1Cache s) victimKey = Some victim"
  then have "length (Map_delete (l1Cache s) victimKey) < length (l1Cache s)"
    by (rule length_Map_delete_less)
  then show
    "((env, let s1 = s\<lparr>l1Cache := Map_delete (l1Cache s) victimKey\<rparr>;
                s2 = demoteToL2 env victimKey victim s1
            in s2\<lparr>stats := (stats s2)\<lparr>evictions := evictions (stats s2) + 1\<rparr>\<rparr>), env, s)
      \<in> measure (\<lambda>(env, s). length (l1Cache s))"
    by (simp add: Let_def demoteToL2_l1Cache)
qed

declare enforceL1Size.simps [simp del]

text \<open>
  \<open>promoteToL1\<close>: leave the tier named by \<open>entry.level\<close>, enter the fast tier, enforce
  its size.  \<open>if (diskPath)\<close> also rejects an empty path.
\<close>

definition promoteToL1 ::
  "'v Env \<Rightarrow> int \<Rightarrow> string \<Rightarrow> 'v CacheEntry \<Rightarrow> 'v CacheManager \<Rightarrow> 'v CacheManager" where
  "promoteToL1 env now k entry s =
     (let s1 =
            (case level entry of
               L2 \<Rightarrow> s\<lparr>l2Cache := Map_delete (l2Cache s) k\<rparr>
             | L3 \<Rightarrow>
                 (case Map_get (l3Index s) k of
                    None \<Rightarrow> s
                  | Some diskPath \<Rightarrow>
                      if diskPath = [] then s
                      else (unlink_ignoring diskPath s)
                             \<lparr>l3Index := Map_delete (l3Index s) k\<rparr>)
             | L1 \<Rightarrow> s);
          e1 = onAdd (evictionPolicy (config env)) now (entry\<lparr>level := L1\<rparr>)
      in enforceL1Size env (s1\<lparr>l1Cache := Map_set (l1Cache s1) k e1\<rparr>))"

subsection \<open>Hits and misses\<close>

text \<open>
  Entries are objects: \<open>recordHit\<close> changes the entry where it is stored.  After a
  promotion the entry of the key is in the fast tier, or, when the size enforcement
  has already demoted it again, in the compressed tier; an entry that has left both
  maps is no longer reachable.
\<close>

definition Map_modify :: "('k, 'a) jsmap \<Rightarrow> 'k \<Rightarrow> ('a \<Rightarrow> 'a) \<Rightarrow> ('k, 'a) jsmap" where
  "Map_modify m k f = map (\<lambda>kv. if fst kv = k then (fst kv, f (snd kv)) else kv) m"

definition update_entry ::
  "string \<Rightarrow> ('v CacheEntry \<Rightarrow> 'v CacheEntry) \<Rightarrow> 'v CacheManager \<Rightarrow> 'v CacheManager" where
  "update_entry k f s =
     (if Map_has (l1Cache s) k then s\<lparr>l1Cache := Map_modify (l1Cache s) k f\<rparr>
      else if Map_has (l2Cache s) k then s\<lparr>l2Cache := Map_modify (l2Cache s) k f\<rparr>
      else s)"

definition recordHit ::
  "'v Env \<Rightarrow> string \<Rightarrow> Level \<Rightarrow> int \<Rightarrow> int \<Rightarrow> 'v CacheManager \<Rightarrow> 'v CacheManager" where
  "recordHit env k lvl accessTime now s =
     (let st = (stats s)\<lparr>totalHits := totalHits (stats s) + 1\<rparr>;
          st' = (case lvl of
                   L1 \<Rightarrow> st\<lparr>l1Hits := l1Hits st + 1\<rparr>
                 | L2 \<Rightarrow> st\<lparr>l2Hits := l2Hits st + 1\<rparr>
                 | L3 \<Rightarrow> st\<lparr>l3Hits := l3Hits st + 1\<rparr>);
          touch = (\<lambda>entry. onAccess (evictionPolicy (config env)) now
                     (entry\<lparr>hits := hits entry + 1, accessed := now\<rparr>))
      in (update_entry k touch s)
           \<lparr>stats := st',
            accessTimes :=
              push_bounded (accessPatternWindowSize (config env)) accessTime (accessTimes s)\<rparr>)"

definition recordMiss :: "'v Env \<Rightarrow> int \<Rightarrow> 'v CacheManager \<Rightarrow> 'v CacheManager" where
  "recordMiss env accessTime s =
     s\<lparr>stats := (stats s)\<lparr>totalMisses := totalMisses (stats s) + 1\<rparr>,
       accessTimes :=
         push_bounded (accessPatternWindowSize (config env)) accessTime (accessTimes s)\<rparr>"

subsection \<open>The public operations\<close>

text \<open>\<open>entry && !this.isExpired(entry)\<close>.\<close>

definition live :: "'v CacheEntry option \<Rightarrow> int \<Rightarrow> 'v CacheEntry option" where
  "live entry now =
     (case entry of None \<Rightarrow> None
      | Some e \<Rightarrow> if isExpired e now then None else Some e)"

datatype GetError = DecompressionFailed

text \<open>
  \<open>get\<close>.  \<open>start\<close> is the clock at \<open>startTime\<close>, \<open>now\<close> the clock of the later
  readings.  The result is \<open>Inr (Some v)\<close> for a value, \<open>Inr None\<close> for \<open>null\<close>
  (or a missing value) and \<open>Inl\<close> for a rejected promise: \<open>decompress\<close> is awaited
  outside any \<open>try\<close>.  \<open>promoteToL1\<close> is not awaited by the source: the value that
  \<open>get\<close> returns is read from the entry before the promotion starts, and the state
  given here is the settled one, after the promotion and the evictions it causes.
  The \<open>catch\<close> of the disk branch is reached only when \<open>createEntry\<close> throws, on a
  record without data; \<open>loadFromDisk\<close> itself returns \<open>null\<close> on every error.
\<close>

definition CacheManager_get ::
  "'v Env \<Rightarrow> string \<Rightarrow> int \<Rightarrow> int \<Rightarrow> 'v CacheManager \<Rightarrow>
   (GetError + 'v option) \<times> 'v CacheManager" where
  "CacheManager_get env k start now s =
     (let accessTime = now - start;
          miss = (\<lambda>s'. (Inr None, recordMiss env accessTime s'))
      in
      case live (Map_get (l1Cache s) k) now of
        Some entry \<Rightarrow> (Inr (val entry), recordHit env k L1 accessTime now s)
      | None \<Rightarrow>
          (case live (Map_get (l2Cache s) k) now of
             Some entry \<Rightarrow>
               (case (case compressed entry of
                        None \<Rightarrow> Some (entry, s)
                      | Some b \<Rightarrow>
                          (case decompress env entry of
                             None \<Rightarrow> None
                           | Some v \<Rightarrow>
                               Some (entry\<lparr>val := Some v, compressed := None\<rparr>,
                                     s\<lparr>stats := (stats s)
                                          \<lparr>decompressions := decompressions (stats s) + 1\<rparr>\<rparr>)))
                of
                  None \<Rightarrow> (Inl DecompressionFailed, s)
                | Some (e1, s1) \<Rightarrow>
                    (Inr (val e1),
                     recordHit env k L2 accessTime now (promoteToL1 env now k e1 s1)))
           | None \<Rightarrow>
               if enableDiskCache (config env) then
                 (case Map_get (l3Index s) k of
                    None \<Rightarrow> miss s
                  | Some diskPath \<Rightarrow>
                      if diskPath = [] then miss s
                      else
                        (case loadFromDisk env diskPath now s of
                           (None, s1) \<Rightarrow> miss s1
                         | (Some (None, p), s1) \<Rightarrow>
                             miss (s1\<lparr>l3Index := Map_delete (l3Index s1) k\<rparr>)
                         | (Some (Some v, p), s1) \<Rightarrow>
                             (Inr (Some v),
                              recordHit env k L3 accessTime now
                                (promoteToL1 env now k (createEntry env v p None now) s1))))
               else miss s))"

text \<open>\<open>updatePredictiveCache\<close>: the pattern is \<open>key.split(':')[0]\<close>.\<close>

definition updatePredictiveCache :: "string \<Rightarrow> 'v CacheManager \<Rightarrow> 'v CacheManager" where
  "updatePredictiveCache k s =
     (let pattern = takeWhile (\<lambda>c. c \<noteq> CHR '':'') k;
          score = (case Map_get (predictiveCache s) pattern of None \<Rightarrow> 0 | Some x \<Rightarrow> x)
      in s\<lparr>predictiveCache := Map_set (predictiveCache s) pattern (score + 1)\<rparr>)"

text \<open>\<open>set\<close>; the argument \<open>ttlArg\<close> is \<open>None\<close> when the caller passes no TTL.\<close>

definition CacheManager_set ::
  "'v Env \<Rightarrow> string \<Rightarrow> 'v \<Rightarrow> CachePriority \<Rightarrow> Ttl option \<Rightarrow> int \<Rightarrow> 'v CacheManager \<Rightarrow>
   'v CacheManager" where
  "CacheManager_set env k v p ttlArg now s =
     (let entry = onAdd (evictionPolicy (config env)) now (createEntry env v p ttlArg now);
          s1 = enforceL1Size env (s\<lparr>l1Cache := Map_set (l1Cache s) k entry\<rparr>)
      in if predictiveCaching (config env) then updatePredictiveCache k s1 else s1)"

text \<open>\<open>delete\<close>: the flag \<open>deleted\<close> and the new state.\<close>

definition CacheManager_delete :: "string \<Rightarrow> 'v CacheManager \<Rightarrow> bool \<times> 'v CacheManager" where
  "CacheManager_delete k s =
     (let deleted = (Map_has (l1Cache s) k \<or> Map_has (l2Cache s) k);
          s1 = s\<lparr>l1Cache := Map_delete (l1Cache s) k, l2Cache := Map_delete (l2Cache s) k\<rparr>
      in case Map_get (l3Index s1) k of
           None \<Rightarrow> (deleted, s1)
         | Some diskPath \<Rightarrow>
             if diskPath = [] then (deleted, s1)
             else
               (case fs_unlink diskPath s1 of
                  None \<Rightarrow> (deleted, s1)
                | Some s2 \<Rightarrow> (True, s2\<lparr>l3Index := Map_delete (l3Index s2) k\<rparr>)))"

text \<open>\<open>clear\<close>.  The two sample arrays are not among the fields it resets.\<close>

definition CacheManager_clear :: "'v Env \<Rightarrow> 'v CacheManager \<Rightarrow> 'v CacheManager" where
  "CacheManager_clear env s =
     (let s1 = s\<lparr>l1Cache := [], l2Cache := []\<rparr>;
          s2 = (if enableDiskCache (config env)
                then (fold (\<lambda>kp st. unlink_ignoring (snd kp) st) (l3Index s1) s1)
                       \<lparr>l3Index := []\<rparr>
                else s1)
      in s2\<lparr>stats := zero_stats\<rparr>)"

definition average :: "rat list \<Rightarrow> rat" where
  "average xs = (if length xs > 0 then sum_list xs / of_nat (length xs) else 0)"

definition getStats :: "'v CacheManager \<Rightarrow> CacheStats" where
  "getStats s =
     (let totalAccesses = totalHits (stats s) + totalMisses (stats s)
      in Stats.extend (stats s)
           (CacheStats.fields
              (if totalAccesses > 0
               then of_nat (totalHits (stats s)) / of_nat totalAccesses else 0)
              (average (map of_int (accessTimes s)))
              (average (compressionRatios s))))"

definition getSizes :: "'v CacheManager \<Rightarrow> nat \<times> nat \<times> nat" where
  "getSizes s = (Map_size (l1Cache s), Map_size (l2Cache s), Map_size (l3Index s))"

subsection \<open>Maintenance\<close>

text \<open>
  The loops of \<open>cleanExpiredEntries\<close> and \<open>updatePredictiveScores\<close> run over the
  entries of a map and delete from, or overwrite in, the same map.
\<close>

definition cleanExpiredEntries :: "'v Env \<Rightarrow> int \<Rightarrow> 'v CacheManager \<Rightarrow> 'v CacheManager" where
  "cleanExpiredEntries env now s =
     (let sweep = (\<lambda>m. fold (\<lambda>ke m'. if isExpired (snd ke) now then Map_delete m' (fst ke)
                                      else m') m m);
          s1 = s\<lparr>l1Cache := sweep (l1Cache s)\<rparr>;
          s2 = s1\<lparr>l2Cache := sweep (l2Cache s1)\<rparr>
      in fold (\<lambda>kp st.
                 case loadFromDisk env (snd kp) now st of
                   (None, st') \<Rightarrow> st'\<lparr>l3Index := Map_delete (l3Index st') (fst kp)\<rparr>
                 | (Some d, st') \<Rightarrow> st')
           (l3Index s2) s2)"

definition updatePredictiveScores :: "'v CacheManager \<Rightarrow> 'v CacheManager" where
  "updatePredictiveScores s =
     s\<lparr>predictiveCache :=
         fold (\<lambda>ps m. if snd ps > 1 then Map_set m (fst ps) (snd ps * (9 / 10))
                       else Map_delete m (fst ps))
           (predictiveCache s) (predictiveCache s)\<rparr>"

definition runMaintenance :: "'v Env \<Rightarrow> int \<Rightarrow> 'v CacheManager \<Rightarrow> 'v CacheManager" where
  "runMaintenance env now s =
     (let s1 = cleanExpiredEntries env now s
      in if predictiveCaching (config env) then updatePredictiveScores s1 else s1)"

section \<open>The eviction loops, one iteration at a time\<close>

text \<open>
  For each of the three loops: the condition under which it runs another iteration
  (with the victim it found), the state after that iteration, and the induction
  principle that follows the loop.
\<close>

definition L3_victim :: "'v Env \<Rightarrow> 'v CacheManager \<Rightarrow> (string \<times> string) option" where
  "L3_victim env s =
     (if Map_size (l3Index s) > maxL3Size (config env)
      then (case l3Index s of [] \<Rightarrow> None | kp # _ \<Rightarrow> Some kp) else None)"

definition L3_step :: "'v Env \<Rightarrow> string \<Rightarrow> string \<Rightarrow> 'v CacheManager \<Rightarrow> 'v CacheManager" where
  "L3_step env oldestKey filePath s =
     (unlink_ignoring filePath s)
       \<lparr>l3Index := Map_delete (l3Index s) oldestKey,
        stats := (stats s)\<lparr>evictions := evictions (stats s) + 1\<rparr>\<rparr>"

lemma enforceL3Size_unfold:
  "enforceL3Size env s =
     (case L3_victim env s of None \<Rightarrow> s
      | Some (k, p) \<Rightarrow> enforceL3Size env (L3_step env k p s))"
  by (subst enforceL3Size.simps)
     (simp add: L3_victim_def L3_step_def split: list.splits)

lemma L3_step_length:
  "L3_victim env s = Some (k, p) \<Longrightarrow> length (l3Index (L3_step env k p s)) < length (l3Index s)"
  by (auto simp: L3_victim_def L3_step_def Map_delete_def le_imp_less_Suc
      split: if_splits list.splits)

lemma enforceL3Size_induct [case_names stop step]:
  assumes "\<And>s. L3_victim env s = None \<Longrightarrow> P s"
    and "\<And>s k p. L3_victim env s = Some (k, p) \<Longrightarrow> P (L3_step env k p s) \<Longrightarrow> P s"
  shows "P s"
proof (induction "length (l3Index s)" arbitrary: s rule: less_induct)
  case less
  show ?case
  proof (cases "L3_victim env s")
    case None
    then show ?thesis by (rule assms(1))
  next
    case (Some kp)
    obtain k p where kp: "kp = (k, p)" by (cases kp)
    have "P (L3_step env k p s)"
      using Some kp by (intro less.hyps L3_step_length) simp
    then show ?thesis using Some kp assms(2) by simp
  qed
qed

definition loop_victim ::
  "EvictionPolicyType \<Rightarrow> nat \<Rightarrow> (string, 'v CacheEntry) jsmap \<Rightarrow> (string \<times> 'v CacheEntry) option" where
  "loop_victim pol cap m =
     (if Map_size m > cap then
        (case selectVictim pol m of
           None \<Rightarrow> None
         | Some victimKey \<Rightarrow>
             if victimKey = [] then None
             else (case Map_get m victimKey of None \<Rightarrow> None
                   | Some victim \<Rightarrow> Some (victimKey, victim)))
      else None)"

definition L2_step ::
  "'v Env \<Rightarrow> string \<Rightarrow> 'v CacheEntry \<Rightarrow> 'v CacheManager \<Rightarrow> 'v CacheManager" where
  "L2_step env victimKey victim s =
     (let s1 = s\<lparr>l2Cache := Map_delete (l2Cache s) victimKey\<rparr>;
          s2 = (if enableDiskCache (config env)
                then demoteToL3 env victimKey victim s1 else s1)
      in s2\<lparr>stats := (stats s2)\<lparr>evictions := evictions (stats s2) + 1\<rparr>\<rparr>)"

abbreviation L2_victim :: "'v Env \<Rightarrow> 'v CacheManager \<Rightarrow> (string \<times> 'v CacheEntry) option" where
  "L2_victim env s \<equiv>
     loop_victim (evictionPolicy (config env)) (maxL2Size (config env)) (l2Cache s)"

lemma enforceL2Size_unfold:
  "enforceL2Size env s =
     (case L2_victim env s of None \<Rightarrow> s
      | Some (k, v) \<Rightarrow> enforceL2Size env (L2_step env k v s))"
  by (subst enforceL2Size.simps)
     (simp add: loop_victim_def L2_step_def split: option.splits)

lemma loop_victim_get: "loop_victim pol cap m = Some (k, v) \<Longrightarrow> Map_get m k = Some v"
  by (auto simp: loop_victim_def split: if_splits option.splits)

lemma L2_step_l2Cache: "l2Cache (L2_step env k v s) = Map_delete (l2Cache s) k"
  by (simp add: L2_step_def Let_def demoteToL3_fields)

lemma enforceL2Size_induct [case_names stop step]:
  assumes "\<And>s. L2_victim env s = None \<Longrightarrow> P s"
    and "\<And>s k v. L2_victim env s = Some (k, v) \<Longrightarrow> P (L2_step env k v s) \<Longrightarrow> P s"
  shows "P s"
proof (induction "length (l2Cache s)" arbitrary: s rule: less_induct)
  case less
  show ?case
  proof (cases "L2_victim env s")
    case None
    then show ?thesis by (rule assms(1))
  next
    case (Some kv)
    obtain k v where kv: "kv = (k, v)" by (cases kv)
    have "length (l2Cache (L2_step env k v s)) < length (l2Cache s)"
      using Some kv by (simp add: L2_step_l2Cache length_Map_delete_less loop_victim_get)
    then have "P (L2_step env k v s)" by (rule less.hyps)
    then show ?thesis using Some kv assms(2) by simp
  qed
qed

definition L1_step ::
  "'v Env \<Rightarrow> string \<Rightarrow> 'v CacheEntry \<Rightarrow> 'v CacheManager \<Rightarrow> 'v CacheManager" where
  "L1_step env victimKey victim s =
     (let s1 = s\<lparr>l1Cache := Map_delete (l1Cache s) victimKey\<rparr>;
          s2 = demoteToL2 env victimKey victim s1
      in s2\<lparr>stats := (stats s2)\<lparr>evictions := evictions (stats s2) + 1\<rparr>\<rparr>)"

abbreviation L1_victim :: "'v Env \<Rightarrow> 'v CacheManager \<Rightarrow> (string \<times> 'v CacheEntry) option" where
  "L1_victim env s \<equiv>
     loop_victim (evictionPolicy (config env)) (maxL1Size (config env)) (l1Cache s)"

lemma enforceL1Size_unfold:
  "enforceL1Size env s =
     (case L1_victim env s of None \<Rightarrow> s
      | Some (k, v) \<Rightarrow> enforceL1Size env (L1_step env k v s))"
  by (subst enforceL1Size.simps)
     (simp add: loop_victim_def L1_step_def split: option.splits)

lemma L1_step_l1Cache: "l1Cache (L1_step env k v s) = Map_delete (l1Cache s) k"
  by (simp add: L1_step_def Let_def demoteToL2_l1Cache)

lemma enforceL1Size_induct [case_names stop step]:
  assumes "\<And>s. L1_victim env s = None \<Longrightarrow> P s"
    and "\<And>s k v. L1_victim env s = Some (k, v) \<Longrightarrow> P (L1_step env k v s) \<Longrightarrow> P s"
  shows "P s"
proof (induction "length (l1Cache s)" arbitrary: s rule: less_induct)
  case less
  show ?case
  proof (cases "L1_victim env s")
    case None
    then show ?thesis by (rule assms(1))
  next
    case (Some kv)
    obtain k v where kv: "kv = (k, v)" by (cases kv)
    have "length (l1Cache (L1_step env k v s)) < length (l1Cache s)"
      using Some kv by (simp add: L1_step_l1Cache length_Map_delete_less loop_victim_get)
    then have "P (L1_step env k v s)" by (rule less.hyps)
    then show ?thesis using Some kv assms(2) by simp
  qed
qed

text \<open>What the loops leave behind.\<close>

lemma enforceL3Size_bound: "Map_size (l3Index (enforceL3Size env s)) \<le> maxL3Size (config env)"
proof (induction s rule: enforceL3Size_induct [of env])
  case (stop s)
  then show ?case
    by (subst enforceL3Size_unfold)
       (auto simp: L3_victim_def Map_size_def split: if_splits list.splits)
next
  case (step s k p)
  then show ?case by (subst enforceL3Size_unfold) simp
qed

lemma enforceL2Size_exit: "L2_victim env (enforceL2Size env s) = None"
proof (induction s rule: enforceL2Size_induct [of env])
  case (stop s)
  then show ?case by (subst enforceL2Size_unfold) simp
next
  case (step s k v)
  then show ?case by (subst enforceL2Size_unfold) simp
qed

lemma enforceL1Size_exit: "L1_victim env (enforceL1Size env s) = None"
proof (induction s rule: enforceL1Size_induct [of env])
  case (stop s)
  then show ?case by (subst enforceL1Size_unfold) simp
next
  case (step s k v)
  then show ?case by (subst enforceL1Size_unfold) simp
qed

section \<open>Victim selection of the LRU policy (claim C8)\<close>

text \<open>
  \<open>oldest_at pre e post\<close>: in the iteration order \<open>pre\<close>, then \<open>e\<close>, then
  \<open>post\<close>, the entry \<open>e\<close> may be evicted, every evictable entry before it was
  accessed strictly later and no evictable entry after it was accessed earlier.
\<close>

definition oldest_at ::
  "(string, 'v CacheEntry) jsmap \<Rightarrow> 'v CacheEntry \<Rightarrow> (string, 'v CacheEntry) jsmap \<Rightarrow> bool" where
  "oldest_at pre e post =
     (evictable e \<and>
      (\<forall>x \<in> set pre. evictable (snd x) \<longrightarrow> accessed e < accessed (snd x)) \<and>
      (\<forall>x \<in> set post. evictable (snd x) \<longrightarrow> accessed e \<le> accessed (snd x)))"

definition none_below :: "(string, 'v CacheEntry) jsmap \<Rightarrow> int option \<Rightarrow> bool" where
  "none_below m oldest =
     (\<forall>x \<in> set m. evictable (snd x) \<longrightarrow> \<not> below (accessed (snd x)) oldest)"

lemma oldest_at_Cons:
  "oldest_at pre e post \<Longrightarrow> (evictable (snd a) \<longrightarrow> accessed e < accessed (snd a)) \<Longrightarrow>
   oldest_at (a # pre) e post"
  by (simp add: oldest_at_def)

lemma oldest_at_Nil:
  "evictable e \<Longrightarrow> none_below post (Some (accessed e)) \<Longrightarrow> oldest_at [] e post"
  by (auto simp: oldest_at_def none_below_def)

lemma none_below_Cons:
  "none_below m oldest \<Longrightarrow> \<not> (evictable e \<and> below (accessed e) oldest) \<Longrightarrow>
   none_below ((k, e) # m) oldest"
  by (simp add: none_below_def)

lemma below_trans: "below a (Some b) \<Longrightarrow> below b oldest \<Longrightarrow> below a oldest"
  by (cases oldest) auto

lemma not_below_less: "\<not> below b oldest \<Longrightarrow> below a oldest \<Longrightarrow> a < b"
  by (cases oldest) auto

lemma LRU_scan_cases:
  "(LRU_scan m oldest victim = victim \<and> none_below m oldest) \<or>
   (\<exists>pre k e post. m = pre @ (k, e) # post \<and> LRU_scan m oldest victim = Some k \<and>
      below (accessed e) oldest \<and> oldest_at pre e post)"
proof (induction m arbitrary: oldest victim)
  case Nil
  then show ?case by (simp add: none_below_def)
next
  case (Cons a m)
  obtain k e where a: "a = (k, e)" by (cases a)
  show ?case
  proof (cases "evictable e \<and> below (accessed e) oldest")
    case True
    then have step: "LRU_scan (a # m) oldest victim = LRU_scan m (Some (accessed e)) (Some k)"
      by (simp add: a)
    from Cons.IH [of "Some (accessed e)" "Some k"] show ?thesis
    proof
      assume h: "LRU_scan m (Some (accessed e)) (Some k) = Some k \<and>
        none_below m (Some (accessed e))"
      have 1: "a # m = [] @ (k, e) # m" by (simp add: a)
      have 2: "LRU_scan (a # m) oldest victim = Some k" using step h by simp
      have 3: "below (accessed e) oldest" using True by simp
      have 4: "oldest_at [] e m" using True h by (simp add: oldest_at_Nil)
      from 1 2 3 4 show ?thesis by blast
    next
      assume "\<exists>pre k' e' post. m = pre @ (k', e') # post \<and>
        LRU_scan m (Some (accessed e)) (Some k) = Some k' \<and>
        below (accessed e') (Some (accessed e)) \<and> oldest_at pre e' post"
      then obtain pre k' e' post where m: "m = pre @ (k', e') # post"
        and r: "LRU_scan m (Some (accessed e)) (Some k) = Some k'"
        and lt: "below (accessed e') (Some (accessed e))"
        and o: "oldest_at pre e' post"
        by blast
      have 1: "a # m = (a # pre) @ (k', e') # post" by (simp add: m)
      have 2: "LRU_scan (a # m) oldest victim = Some k'" using step r by simp
      have 3: "below (accessed e') oldest" using lt True below_trans by blast
      have 4: "oldest_at (a # pre) e' post"
        using o lt by (intro oldest_at_Cons) (simp_all add: a)
      from 1 2 3 4 show ?thesis by blast
    qed
  next
    case False
    then have step: "LRU_scan (a # m) oldest victim = LRU_scan m oldest victim"
      by (auto simp: a)
    from Cons.IH [of oldest victim] show ?thesis
    proof
      assume h: "LRU_scan m oldest victim = victim \<and> none_below m oldest"
      have "none_below (a # m) oldest"
        unfolding a using h False by (intro none_below_Cons) simp_all
      then show ?thesis using step h by simp
    next
      assume "\<exists>pre k' e' post. m = pre @ (k', e') # post \<and>
        LRU_scan m oldest victim = Some k' \<and>
        below (accessed e') oldest \<and> oldest_at pre e' post"
      then obtain pre k' e' post where m: "m = pre @ (k', e') # post"
        and r: "LRU_scan m oldest victim = Some k'"
        and lt: "below (accessed e') oldest"
        and o: "oldest_at pre e' post"
        by blast
      have 1: "a # m = (a # pre) @ (k', e') # post" by (simp add: m)
      have 2: "LRU_scan (a # m) oldest victim = Some k'" using step r by simp
      have 4: "oldest_at (a # pre) e' post"
      proof (intro oldest_at_Cons o impI)
        assume "evictable (snd a)"
        then have "\<not> below (accessed e) oldest" using False by (simp add: a)
        then show "accessed e' < accessed (snd a)"
          using lt not_below_less by (simp add: a)
      qed
      from 1 2 lt 4 show ?thesis by blast
    qed
  qed
qed

lemma evictable_iff: "evictable e \<longleftrightarrow> priority e \<in> {LOW, NORMAL}"
  by (cases "priority e") (simp_all add: evictable_def)

lemma not_evictable_iff: "\<not> evictable e \<longleftrightarrow> priority e \<in> {HIGH, CRITICAL}"
  by (cases "priority e") (simp_all add: evictable_def)

text \<open>An entry for examples: priority, time of last access, hit count.\<close>

definition sample_entry :: "CachePriority \<Rightarrow> int \<Rightarrow> nat \<Rightarrow> string CacheEntry" where
  "sample_entry p t h =
     \<lparr> val = Some ''v'', esize = 1, priority = p, created = 0, accessed = t, hits = h,
       ttl = Some (Ms 1000), compressed = None, level = L1 \<rparr>"

text \<open>
  Claim C8.  \<open>LRUPolicy.selectVictim\<close> returns no key exactly when every entry of the
  map has priority HIGH or CRITICAL.  When it returns a key \<open>k\<close>, the map is
  \<open>pre\<close>, then the entry \<open>e\<close> of \<open>k\<close>, then \<open>post\<close> in iteration order, where
  \<open>e\<close> has priority LOW or NORMAL, every LOW or NORMAL entry of \<open>pre\<close> was accessed
  strictly later than \<open>e\<close>, and no LOW or NORMAL entry of \<open>post\<close> was accessed
  earlier: \<open>e\<close> is the first entry in iteration order among the evictable entries
  with the oldest access time.
\<close>

theorem LRU_selectVictim_oldest_first:
  "(LRU_selectVictim m = None \<longleftrightarrow> (\<forall>x \<in> set m. priority (snd x) \<in> {HIGH, CRITICAL})) \<and>
   (\<forall>k. LRU_selectVictim m = Some k \<longrightarrow>
      (\<exists>pre e post. m = pre @ (k, e) # post \<and> priority e \<in> {LOW, NORMAL} \<and>
         (\<forall>x \<in> set pre. priority (snd x) \<in> {LOW, NORMAL} \<longrightarrow> accessed e < accessed (snd x)) \<and>
         (\<forall>x \<in> set post. priority (snd x) \<in> {LOW, NORMAL} \<longrightarrow> accessed e \<le> accessed (snd x))))"
proof -
  have "(LRU_selectVictim m = None \<and> none_below m None) \<or>
    (\<exists>pre k e post. m = pre @ (k, e) # post \<and> LRU_selectVictim m = Some k \<and>
       oldest_at pre e post)"
    using LRU_scan_cases [of m None None] by (auto simp: LRU_selectVictim_def)
  then show ?thesis
  proof (elim disjE conjE exE)
    assume r: "LRU_selectVictim m = None" and nb: "none_below m None"
    have "\<forall>x \<in> set m. priority (snd x) \<in> {HIGH, CRITICAL}"
      using nb unfolding none_below_def not_evictable_iff [symmetric] by simp
    then show ?thesis using r by simp
  next
    fix pre k e post
    assume m: "m = pre @ (k, e) # post" and r: "LRU_selectVictim m = Some k"
      and o: "oldest_at pre e post"
    have ev: "evictable e" using o by (simp add: oldest_at_def)
    have "(k, e) \<in> set m" using m by simp
    then have "\<not> (\<forall>x \<in> set m. priority (snd x) \<in> {HIGH, CRITICAL})"
      using ev unfolding not_evictable_iff [symmetric] by force
    moreover have "\<exists>pre e post. m = pre @ (k, e) # post \<and> priority e \<in> {LOW, NORMAL} \<and>
         (\<forall>x \<in> set pre. priority (snd x) \<in> {LOW, NORMAL} \<longrightarrow> accessed e < accessed (snd x)) \<and>
         (\<forall>x \<in> set post. priority (snd x) \<in> {LOW, NORMAL} \<longrightarrow> accessed e \<le> accessed (snd x))"
      using m o unfolding oldest_at_def evictable_iff by blast
    ultimately show ?thesis using r by simp
  qed
qed

theorem LRU_selectVictim_oldest_first_witness:
  "LRU_selectVictim
     [(''a'', sample_entry NORMAL 5 1), (''p'', sample_entry HIGH 1 1),
      (''b'', sample_entry LOW 3 1), (''c'', sample_entry NORMAL 3 1)] = Some ''b'' \<and>
   (\<exists>pre e post.
      [(''a'', sample_entry NORMAL 5 1), (''p'', sample_entry HIGH 1 1),
       (''b'', sample_entry LOW 3 1), (''c'', sample_entry NORMAL 3 1)]
        = pre @ (''b'', e) # post \<and> priority e \<in> {LOW, NORMAL} \<and>
      (\<forall>x \<in> set pre. priority (snd x) \<in> {LOW, NORMAL} \<longrightarrow> accessed e < accessed (snd x)) \<and>
      (\<forall>x \<in> set post. priority (snd x) \<in> {LOW, NORMAL} \<longrightarrow> accessed e \<le> accessed (snd x))) \<and>
   LRU_selectVictim [(''p'', sample_entry HIGH 1 1), (''q'', sample_entry CRITICAL 0 1)]
     = None"
proof -
  let ?m = "[(''a'', sample_entry NORMAL 5 1), (''p'', sample_entry HIGH 1 1),
      (''b'', sample_entry LOW 3 1), (''c'', sample_entry NORMAL 3 1)]"
  let ?n = "[(''p'', sample_entry HIGH 1 1), (''q'', sample_entry CRITICAL 0 1)]"
  have r: "LRU_selectVictim ?m = Some ''b''"
    by (simp add: LRU_selectVictim_def evictable_def sample_entry_def)
  have n: "\<forall>x \<in> set ?n. priority (snd x) \<in> {HIGH, CRITICAL}"
    by (simp add: sample_entry_def)
  from LRU_selectVictim_oldest_first [of ?m] r LRU_selectVictim_oldest_first [of ?n] n
  show ?thesis by blast
qed

section \<open>Fixtures for the examples\<close>

text \<open>
  A toy instance of the library functions, on string values: the JSON text of a
  value is the value, gzip is the identity and the digest of a key is the key.
\<close>

definition sample_env :: "CacheConfig \<Rightarrow> string Env" where
  "sample_env cfg =
     \<lparr> config = cfg, sha256 = (\<lambda>k. k), stringify = (\<lambda>v. v), parse = Some,
       gzip = (\<lambda>j. j), gunzip = Some \<rparr>"

text \<open>The constructor's argument \<open>{}\<close>.\<close>

definition no_options :: PartialConfig where
  "no_options =
     \<lparr> p_maxL1Size = None, p_maxL2Size = None, p_maxL3Size = None, p_l3Directory = None,
       p_compressionThreshold = None, p_evictionPolicy = None, p_defaultTtl = None,
       p_enableDiskCache = None, p_enableCompression = None, p_maintenanceInterval = None,
       p_accessPatternWindowSize = None, p_predictiveCaching = None \<rparr>"

lemmas eval_defs =
  sample_env_def no_options_def mk_config_def new_CacheManager_def zero_stats_def
  CacheManager_set_def CacheManager_get_def CacheManager_delete_def CacheManager_clear_def
  createEntry_def isExpired_def live_def onAdd_def onAccess_def selectVictim_def
  LRU_selectVictim_def LFU_selectVictim_def evictable_def
  Map_size_def Map_get_def Map_has_def Map_delete_def Map_modify_def
  promoteToL1_def demoteToL2_def demoteToL3_def loadFromDisk_def
  enforceL1Size.simps enforceL2Size.simps enforceL3Size.simps
  compress_def decompress_def push_bounded_def cache_path_def
  fs_writeFile_def fs_readFile_def fs_unlink_def unlink_ignoring_def
  recordHit_def recordMiss_def update_entry_def updatePredictiveCache_def
  cleanExpiredEntries_def updatePredictiveScores_def runMaintenance_def
  getStats_def getSizes_def average_def Let_def

section \<open>Decay of the predictive scores (claim C9)\<close>

lemma loadFromDisk_fields:
  "l1Cache (snd (loadFromDisk env path now s)) = l1Cache s \<and>
   l2Cache (snd (loadFromDisk env path now s)) = l2Cache s \<and>
   l3Index (snd (loadFromDisk env path now s)) = l3Index s \<and>
   accessTimes (snd (loadFromDisk env path now s)) = accessTimes s \<and>
   compressionRatios (snd (loadFromDisk env path now s)) = compressionRatios s \<and>
   predictiveCache (snd (loadFromDisk env path now s)) = predictiveCache s"
  by (simp add: loadFromDisk_def split: option.splits FileContent.splits DiskData.splits)

definition sweep_disk_entry ::
  "'v Env \<Rightarrow> int \<Rightarrow> string \<times> string \<Rightarrow> 'v CacheManager \<Rightarrow> 'v CacheManager" where
  "sweep_disk_entry env now kp st =
     (case loadFromDisk env (snd kp) now st of
        (None, st') \<Rightarrow> st'\<lparr>l3Index := Map_delete (l3Index st') (fst kp)\<rparr>
      | (Some d, st') \<Rightarrow> st')"

lemma sweep_disk_entry_fields:
  "l1Cache (sweep_disk_entry env now kp s) = l1Cache s \<and>
   l2Cache (sweep_disk_entry env now kp s) = l2Cache s \<and>
   accessTimes (sweep_disk_entry env now kp s) = accessTimes s \<and>
   compressionRatios (sweep_disk_entry env now kp s) = compressionRatios s \<and>
   predictiveCache (sweep_disk_entry env now kp s) = predictiveCache s"
  using loadFromDisk_fields [of env "snd kp" now s]
  by (cases "loadFromDisk env (snd kp) now s")
     (auto simp: sweep_disk_entry_def split: option.splits)

lemma fold_sweep_disk_fields:
  "l1Cache (fold (sweep_disk_entry env now) xs s) = l1Cache s \<and>
   l2Cache (fold (sweep_disk_entry env now) xs s) = l2Cache s \<and>
   accessTimes (fold (sweep_disk_entry env now) xs s) = accessTimes s \<and>
   compressionRatios (fold (sweep_disk_entry env now) xs s) = compressionRatios s \<and>
   predictiveCache (fold (sweep_disk_entry env now) xs s) = predictiveCache s"
  by (induction xs arbitrary: s) (simp_all add: sweep_disk_entry_fields)

lemma cleanExpiredEntries_eq:
  "cleanExpiredEntries env now s =
     fold (sweep_disk_entry env now) (l3Index s)
       (s\<lparr>l1Cache := fold (\<lambda>ke m'. if isExpired (snd ke) now then Map_delete m' (fst ke) else m')
                        (l1Cache s) (l1Cache s),
          l2Cache := fold (\<lambda>ke m'. if isExpired (snd ke) now then Map_delete m' (fst ke) else m')
                        (l2Cache s) (l2Cache s)\<rparr>)"
proof -
  have "sweep_disk_entry env now = (\<lambda>kp st.
          case loadFromDisk env (snd kp) now st of
            (None, st') \<Rightarrow> st'\<lparr>l3Index := Map_delete (l3Index st') (fst kp)\<rparr>
          | (Some d, st') \<Rightarrow> st')"
    by (intro ext) (simp add: sweep_disk_entry_def)
  then show ?thesis by (simp add: cleanExpiredEntries_def Let_def)
qed

lemma cleanExpiredEntries_predictiveCache:
  "predictiveCache (cleanExpiredEntries env now s) = predictiveCache s"
  by (simp add: cleanExpiredEntries_eq fold_sweep_disk_fields)

definition decay_step :: "string \<times> rat \<Rightarrow> (string, rat) jsmap \<Rightarrow> (string, rat) jsmap" where
  "decay_step ps m =
     (if snd ps > 1 then Map_set m (fst ps) (snd ps * (9 / 10)) else Map_delete m (fst ps))"

lemma Map_get_fold_decay:
  "distinct (map fst xs) \<Longrightarrow>
   Map_get (fold decay_step xs m) pat =
     (case Map_get xs pat of None \<Rightarrow> Map_get m pat
      | Some score \<Rightarrow> if score > 1 then Some (score * (9 / 10)) else None)"
proof (induction xs arbitrary: m)
  case Nil
  then show ?case by (simp add: Map_get_def)
next
  case (Cons a xs)
  obtain q sc where a: "a = (q, sc)" by (cases a)
  have d: "distinct (map fst xs)" and q: "q \<notin> fst ` set xs"
    using Cons.prems by (simp_all add: a)
  have ih: "Map_get (fold decay_step xs (decay_step a m)) pat =
     (case Map_get xs pat of None \<Rightarrow> Map_get (decay_step a m) pat
      | Some score \<Rightarrow> if score > 1 then Some (score * (9 / 10)) else None)"
    using d by (rule Cons.IH)
  show ?case
  proof (cases "pat = q")
    case True
    have "Map_get xs pat = None"
      using q True by (simp add: Map_get_def map_of_eq_None_iff)
    moreover have "Map_get (decay_step a m) pat =
        (if sc > 1 then Some (sc * (9 / 10)) else None)"
      using True by (simp add: decay_step_def a Map_get_Map_set Map_get_Map_delete)
    moreover have "Map_get (a # xs) pat = Some sc"
      using True by (simp add: a Map_get_def)
    ultimately show ?thesis using ih by simp
  next
    case False
    have "Map_get (decay_step a m) pat = Map_get m pat"
      using False by (simp add: decay_step_def a Map_get_Map_set Map_get_Map_delete)
    moreover have "Map_get (a # xs) pat = Map_get xs pat"
      using False by (simp add: a Map_get_def)
    ultimately show ?thesis using ih by (simp split: option.splits)
  qed
qed

lemma updatePredictiveScores_eq:
  "predictiveCache (updatePredictiveScores s) =
     fold decay_step (predictiveCache s) (predictiveCache s)"
proof -
  have "decay_step = (\<lambda>ps m. if snd ps > 1 then Map_set m (fst ps) (snd ps * (9 / 10))
                             else Map_delete m (fst ps))"
    by (intro ext) (simp add: decay_step_def)
  then show ?thesis by (simp add: updatePredictiveScores_def)
qed

text \<open>The configuration \<open>{predictiveCaching: true}\<close> and the state after two \<open>set\<close>
  calls on keys of the pattern \<open>user\<close>.\<close>

definition predictive_env :: "string Env" where
  "predictive_env = sample_env (mk_config (no_options\<lparr>p_predictiveCaching := Some True\<rparr>))"

definition two_user_keys :: "string CacheManager" where
  "two_user_keys =
     CacheManager_set predictive_env ''user:2'' ''w'' NORMAL None 2
       (CacheManager_set predictive_env ''user:1'' ''v'' NORMAL None 1
          (new_CacheManager [] True))"

lemma two_user_keys_scores: "predictiveCache two_user_keys = [(''user'', 2)]"
  by (simp add: two_user_keys_def predictive_env_def eval_defs)

text \<open>
  Claim C9, as the code has it.  With predictive caching enabled, a maintenance run
  tests each score as it stands before the run: a score of at most 1 is removed, a
  score above 1 is multiplied by 0.9 and kept.  So every score kept by a run is
  above 0.9, and a kept score may be at most 1.
\<close>

theorem runMaintenance_decays_scores:
  assumes "predictiveCaching (config env)" and "distinct (map fst (predictiveCache s))"
  shows "Map_get (predictiveCache (runMaintenance env now s)) pat =
           (case Map_get (predictiveCache s) pat of
              None \<Rightarrow> None
            | Some score \<Rightarrow> if score > 1 then Some (score * (9 / 10)) else None) \<and>
         (\<forall>score'. Map_get (predictiveCache (runMaintenance env now s)) pat = Some score' \<longrightarrow>
            score' > 9 / 10)"
proof -
  have "predictiveCache (runMaintenance env now s) =
          fold decay_step (predictiveCache s) (predictiveCache s)"
    using assms(1)
    by (simp add: runMaintenance_def Let_def updatePredictiveScores_eq
        cleanExpiredEntries_predictiveCache)
  then have eq: "Map_get (predictiveCache (runMaintenance env now s)) pat =
           (case Map_get (predictiveCache s) pat of
              None \<Rightarrow> None
            | Some score \<Rightarrow> if score > 1 then Some (score * (9 / 10)) else None)"
    using assms(2) by (simp add: Map_get_fold_decay split: option.splits)
  then show ?thesis by (auto split: option.splits if_splits)
qed

theorem runMaintenance_decays_scores_witness:
  "predictiveCaching (config predictive_env) \<and>
   distinct (map fst (predictiveCache two_user_keys)) \<and>
   Map_get (predictiveCache (runMaintenance predictive_env 10 two_user_keys)) ''user''
     = Some (9 / 5)"
proof -
  have p: "predictiveCaching (config predictive_env)"
    by (simp add: predictive_env_def eval_defs)
  have d: "distinct (map fst (predictiveCache two_user_keys))"
    by (simp add: two_user_keys_scores)
  from runMaintenance_decays_scores [OF p d, of 10 "''user''"] p d
  show ?thesis by (simp add: two_user_keys_scores Map_get_def)
qed

text \<open>
  The claim as written fails: seven runs after the two \<open>set\<close> calls the score of
  \<open>user\<close> is \<open>2 * 0.9^7\<close>, which is below 1, and the seventh run has kept it.
\<close>

theorem score_below_one_retained:
  "Map_get (predictiveCache
     (runMaintenance predictive_env 10 (runMaintenance predictive_env 10
     (runMaintenance predictive_env 10 (runMaintenance predictive_env 10
     (runMaintenance predictive_env 10 (runMaintenance predictive_env 10
     (runMaintenance predictive_env 10 two_user_keys)))))))) ''user''
     = Some (4782969 / 5000000) \<and> (4782969 / 5000000 :: rat) \<le> 1"
  by (simp add: two_user_keys_def predictive_env_def eval_defs)

section \<open>Sequences of operations\<close>

datatype 'v Op =
    OpGet string int int
  | OpSet string 'v CachePriority "Ttl option" int
  | OpDelete string
  | OpClear
  | OpMaintenance int

fun apply_op :: "'v Env \<Rightarrow> 'v Op \<Rightarrow> 'v CacheManager \<Rightarrow> 'v CacheManager" where
  "apply_op env (OpGet k start now) s = snd (CacheManager_get env k start now s)"
| "apply_op env (OpSet k v p ttlArg now) s = CacheManager_set env k v p ttlArg now s"
| "apply_op env (OpDelete k) s = snd (CacheManager_delete k s)"
| "apply_op env OpClear s = CacheManager_clear env s"
| "apply_op env (OpMaintenance now) s = runMaintenance env now s"

definition run_ops :: "'v Env \<Rightarrow> 'v Op list \<Rightarrow> 'v CacheManager \<Rightarrow> 'v CacheManager" where
  "run_ops env ops s = fold (apply_op env) ops s"

section \<open>What a demotion to the compressed tier does\<close>

definition compresses :: "'v Env \<Rightarrow> 'v CacheEntry \<Rightarrow> bool" where
  "compresses env e =
     (enableCompression (config env) \<and> esize e > compressionThreshold (config env) \<and>
      val e \<noteq> None)"

definition demoted_entry :: "'v Env \<Rightarrow> 'v CacheEntry \<Rightarrow> 'v CacheEntry" where
  "demoted_entry env e =
     (case val e of
        Some v \<Rightarrow>
          if compresses env e
          then e\<lparr>level := L2, val := None, compressed := Some (gzip env (stringify env v))\<rparr>
          else e\<lparr>level := L2\<rparr>
      | None \<Rightarrow> e\<lparr>level := L2\<rparr>)"

definition demoted_state :: "'v Env \<Rightarrow> 'v CacheEntry \<Rightarrow> 'v CacheManager \<Rightarrow> 'v CacheManager" where
  "demoted_state env e s =
     (case val e of
        Some v \<Rightarrow>
          if compresses env e
          then s\<lparr>compressionRatios :=
                   push_bounded 100
                     (of_nat (length (stringify env v)) /
                      of_nat (length (gzip env (stringify env v))))
                     (compressionRatios s),
                 stats := (stats s)\<lparr>compressions := compressions (stats s) + 1\<rparr>\<rparr>
          else s
      | None \<Rightarrow> s)"

lemma demoteToL2_eq:
  "demoteToL2 env k e s =
     enforceL2Size env
       ((demoted_state env e s)\<lparr>l2Cache := Map_set (l2Cache s) k (demoted_entry env e)\<rparr>)"
  by (cases "val e")
     (auto simp: demoteToL2_def demoted_state_def demoted_entry_def compresses_def
        compress_def Let_def)

lemma push_bounded_length: "length xs \<le> n \<Longrightarrow> length (push_bounded n x xs) \<le> n"
  by (simp add: push_bounded_def)

lemma demoted_state_fields [simp]:
  "l1Cache (demoted_state env e s) = l1Cache s"
  "l2Cache (demoted_state env e s) = l2Cache s"
  "l3Index (demoted_state env e s) = l3Index s"
  "accessTimes (demoted_state env e s) = accessTimes s"
  "predictiveCache (demoted_state env e s) = predictiveCache s"
  "files (demoted_state env e s) = files s"
  "writable (demoted_state env e s) = writable s"
  by (simp_all add: demoted_state_def split: option.splits)

lemma demoted_state_ratios:
  "length (compressionRatios s) \<le> 100 \<Longrightarrow>
   length (compressionRatios (demoted_state env e s)) \<le> 100"
  by (simp add: demoted_state_def push_bounded_length split: option.splits)







lemma demoted_entry_expired [simp]: "isExpired (demoted_entry env e) t = isExpired e t"
  by (simp add: demoted_entry_def isExpired_def split: option.splits)

lemma demoted_entry_ttl [simp]: "ttl (demoted_entry env e) = ttl e"
  by (simp add: demoted_entry_def split: option.splits)

section \<open>The two rolling samples (claim C7)\<close>

lemma L2_step_samples:
  "accessTimes (L2_step env k v s) = accessTimes s \<and>
   compressionRatios (L2_step env k v s) = compressionRatios s \<and>
   predictiveCache (L2_step env k v s) = predictiveCache s"
  by (simp add: L2_step_def Let_def demoteToL3_fields)

lemma enforceL2Size_samples:
  "accessTimes (enforceL2Size env s) = accessTimes s \<and>
   compressionRatios (enforceL2Size env s) = compressionRatios s \<and>
   predictiveCache (enforceL2Size env s) = predictiveCache s"
proof (induction s rule: enforceL2Size_induct [of env])
  case (stop s)
  then show ?case by (subst (1 2 3) enforceL2Size_unfold) simp
next
  case (step s k v)
  then show ?case by (subst (1 2 3) enforceL2Size_unfold) (simp add: L2_step_samples)
qed

lemma demoteToL2_samples:
  "accessTimes (demoteToL2 env k e s) = accessTimes s \<and>
   predictiveCache (demoteToL2 env k e s) = predictiveCache s \<and>
   (length (compressionRatios s) \<le> 100 \<longrightarrow>
      length (compressionRatios (demoteToL2 env k e s)) \<le> 100)"
  by (simp add: demoteToL2_eq enforceL2Size_samples demoted_state_ratios)

lemma L1_step_samples:
  "accessTimes (L1_step env k v s) = accessTimes s \<and>
   predictiveCache (L1_step env k v s) = predictiveCache s \<and>
   (length (compressionRatios s) \<le> 100 \<longrightarrow>
      length (compressionRatios (L1_step env k v s)) \<le> 100)"
  using demoteToL2_samples [of env k v "s\<lparr>l1Cache := Map_delete (l1Cache s) k\<rparr>"]
  by (simp add: L1_step_def Let_def)

lemma enforceL1Size_samples:
  "accessTimes (enforceL1Size env s) = accessTimes s \<and>
   predictiveCache (enforceL1Size env s) = predictiveCache s \<and>
   (length (compressionRatios s) \<le> 100 \<longrightarrow>
      length (compressionRatios (enforceL1Size env s)) \<le> 100)"
proof (induction s rule: enforceL1Size_induct [of env])
  case (stop s)
  then show ?case by (subst (1 2 3) enforceL1Size_unfold) simp
next
  case (step s k v)
  then show ?case
    using L1_step_samples [of env k v s]
    by (subst (1 2 3) enforceL1Size_unfold) simp
qed

lemma promoteToL1_samples:
  "accessTimes (promoteToL1 env now k e s) = accessTimes s \<and>
   (length (compressionRatios s) \<le> 100 \<longrightarrow>
      length (compressionRatios (promoteToL1 env now k e s)) \<le> 100)"
proof -
  let ?s1 = "case level e of
               L1 \<Rightarrow> s
             | L2 \<Rightarrow> s\<lparr>l2Cache := Map_delete (l2Cache s) k\<rparr>
             | L3 \<Rightarrow>
                 (case Map_get (l3Index s) k of
                    None \<Rightarrow> s
                  | Some diskPath \<Rightarrow>
                      if diskPath = [] then s
                      else (unlink_ignoring diskPath s)\<lparr>l3Index := Map_delete (l3Index s) k\<rparr>)"
  have s1: "accessTimes ?s1 = accessTimes s" "compressionRatios ?s1 = compressionRatios s"
    by (simp_all split: Level.splits option.splits)
  have eq: "promoteToL1 env now k e s =
      enforceL1Size env
        (?s1\<lparr>l1Cache := Map_set (l1Cache ?s1) k
                (onAdd (evictionPolicy (config env)) now (e\<lparr>level := L1\<rparr>))\<rparr>)"
    by (simp add: promoteToL1_def Let_def)
  show ?thesis
    unfolding eq
    using enforceL1Size_samples [of env "?s1\<lparr>l1Cache := Map_set (l1Cache ?s1) k
                (onAdd (evictionPolicy (config env)) now (e\<lparr>level := L1\<rparr>))\<rparr>"] s1
    by simp
qed

lemma update_entry_samples [simp]:
  "accessTimes (update_entry k f s) = accessTimes s"
  "compressionRatios (update_entry k f s) = compressionRatios s"
  by (simp_all add: update_entry_def)

lemma recordHit_samples:
  "accessTimes (recordHit env k lvl a now s) =
     push_bounded (accessPatternWindowSize (config env)) a (accessTimes s) \<and>
   compressionRatios (recordHit env k lvl a now s) = compressionRatios s"
  by (simp add: recordHit_def Let_def)

lemma recordMiss_samples:
  "accessTimes (recordMiss env a s) =
     push_bounded (accessPatternWindowSize (config env)) a (accessTimes s) \<and>
   compressionRatios (recordMiss env a s) = compressionRatios s"
  by (simp add: recordMiss_def)

lemma get_samples:
  "accessTimes (snd (CacheManager_get env k start now s)) =
     (if fst (CacheManager_get env k start now s) = Inl DecompressionFailed
      then accessTimes s
      else push_bounded (accessPatternWindowSize (config env)) (now - start) (accessTimes s)) \<and>
   (length (compressionRatios s) \<le> 100 \<longrightarrow>
      length (compressionRatios (snd (CacheManager_get env k start now s))) \<le> 100)"
proof -
  have lf: "accessTimes (snd (loadFromDisk env p now s)) = accessTimes s"
    "compressionRatios (snd (loadFromDisk env p now s)) = compressionRatios s" for p
    using loadFromDisk_fields [of env p now s] by simp_all
  have lf': "accessTimes s1 = accessTimes s \<and> compressionRatios s1 = compressionRatios s"
    if "loadFromDisk env p now s = (r, s1)" for p r s1
    using lf [of p] that by simp
  show ?thesis
    unfolding CacheManager_get_def Let_def
    by (auto simp: recordHit_samples recordMiss_samples promoteToL1_samples
        split: option.splits prod.splits dest!: lf')
qed

lemma set_samples:
  "accessTimes (CacheManager_set env k v p ttlArg now s) = accessTimes s \<and>
   (length (compressionRatios s) \<le> 100 \<longrightarrow>
      length (compressionRatios (CacheManager_set env k v p ttlArg now s)) \<le> 100)"
  using enforceL1Size_samples [of env "s\<lparr>l1Cache := Map_set (l1Cache s) k
          (onAdd (evictionPolicy (config env)) now (createEntry env v p ttlArg now))\<rparr>"]
  by (simp add: CacheManager_set_def Let_def updatePredictiveCache_def)

lemma delete_samples:
  "accessTimes (snd (CacheManager_delete k s)) = accessTimes s \<and>
   compressionRatios (snd (CacheManager_delete k s)) = compressionRatios s"
  by (auto simp: CacheManager_delete_def Let_def fs_unlink_def split: option.splits)

lemma fold_unlink_samples:
  "accessTimes (fold (\<lambda>kp st. unlink_ignoring (snd kp) st) xs s) = accessTimes s \<and>
   compressionRatios (fold (\<lambda>kp st. unlink_ignoring (snd kp) st) xs s) = compressionRatios s"
  by (induction xs arbitrary: s) simp_all

lemma clear_samples:
  "accessTimes (CacheManager_clear env s) = accessTimes s \<and>
   compressionRatios (CacheManager_clear env s) = compressionRatios s"
  by (simp add: CacheManager_clear_def Let_def fold_unlink_samples)

lemma runMaintenance_samples:
  "accessTimes (runMaintenance env now s) = accessTimes s \<and>
   compressionRatios (runMaintenance env now s) = compressionRatios s"
  by (simp add: runMaintenance_def Let_def updatePredictiveScores_def cleanExpiredEntries_eq
      fold_sweep_disk_fields)

definition samples_bounded :: "'v Env \<Rightarrow> 'v CacheManager \<Rightarrow> bool" where
  "samples_bounded env s =
     (length (accessTimes s) \<le> accessPatternWindowSize (config env) \<and>
      length (compressionRatios s) \<le> 100)"

lemma apply_op_samples_bounded:
  "samples_bounded env s \<Longrightarrow> samples_bounded env (apply_op env op s)"
proof (cases op)
  case (OpGet k start now)
  then show "samples_bounded env s \<Longrightarrow> ?thesis"
    using get_samples [of env k start now s]
    by (auto simp: samples_bounded_def push_bounded_length)
next
  case (OpSet k v p ttlArg now)
  then show "samples_bounded env s \<Longrightarrow> ?thesis"
    using set_samples [of env k v p ttlArg now s] by (simp add: samples_bounded_def)
next
  case (OpDelete k)
  then show "samples_bounded env s \<Longrightarrow> ?thesis"
    by (simp add: samples_bounded_def delete_samples)
next
  case OpClear
  then show "samples_bounded env s \<Longrightarrow> ?thesis"
    by (simp add: samples_bounded_def clear_samples)
next
  case (OpMaintenance now)
  then show "samples_bounded env s \<Longrightarrow> ?thesis"
    by (simp add: samples_bounded_def runMaintenance_samples)
qed

lemma run_ops_samples_bounded:
  "samples_bounded env s \<Longrightarrow> samples_bounded env (run_ops env ops s)"
  unfolding run_ops_def
  by (induction ops arbitrary: s) (simp_all add: apply_op_samples_bounded)

lemma demoteToL2_ratios:
  "compressionRatios (demoteToL2 env k e s) =
     (case val e of
        None \<Rightarrow> compressionRatios s
      | Some v \<Rightarrow>
          if enableCompression (config env) \<and> esize e > compressionThreshold (config env)
          then push_bounded 100
                 (of_nat (length (stringify env v)) / of_nat (length (gzip env (stringify env v))))
                 (compressionRatios s)
          else compressionRatios s)"
  by (auto simp: demoteToL2_eq enforceL2Size_samples demoted_state_def compresses_def
      split: option.splits)

text \<open>
  Claim C7, as the code has it.  In every state reached from a new manager by
  \<open>get\<close>, \<open>set\<close>, \<open>delete\<close>, \<open>clear\<close> and maintenance runs, the access-time
  sample holds at most \<open>accessPatternWindowSize\<close> entries and the compression-ratio
  sample holds at most 100 entries, a bound of its own that is not configured.  A
  \<open>get\<close> that returns appends its latency to the access-time sample, bounded by the
  configured window; a demotion that compresses its entry appends the ratio
  \<open>originalSize / compressedSize\<close> to the compression-ratio sample, bounded by 100,
  and a demotion that does not compress leaves that sample as it is.  Appending to a
  full sample drops its oldest entry: the sample of 100 ratios loses its first one.
\<close>

theorem samples_stay_bounded:
  "length (accessTimes (run_ops env ops (new_CacheManager fs w)))
     \<le> accessPatternWindowSize (config env) \<and>
   length (compressionRatios (run_ops env ops (new_CacheManager fs w))) \<le> 100 \<and>
   accessTimes (snd (CacheManager_get env k start now s)) =
     (if fst (CacheManager_get env k start now s) = Inl DecompressionFailed
      then accessTimes s
      else push_bounded (accessPatternWindowSize (config env)) (now - start) (accessTimes s)) \<and>
   compressionRatios (demoteToL2 env k' e s') =
     (case val e of
        None \<Rightarrow> compressionRatios s'
      | Some v \<Rightarrow>
          if enableCompression (config env) \<and> esize e > compressionThreshold (config env)
          then push_bounded 100
                 (of_nat (length (stringify env v)) / of_nat (length (gzip env (stringify env v))))
                 (compressionRatios s')
          else compressionRatios s') \<and>
   push_bounded (Suc (length xs)) x (y # xs) = xs @ [x] \<and>
   push_bounded 100 r (q # qs) = (if length qs < 99 then q # qs @ [r] else qs @ [r])"
proof -
  have "samples_bounded env (new_CacheManager fs w)"
    by (simp add: samples_bounded_def new_CacheManager_def)
  then have "samples_bounded env (run_ops env ops (new_CacheManager fs w))"
    by (rule run_ops_samples_bounded)
  then have 1: "length (accessTimes (run_ops env ops (new_CacheManager fs w)))
       \<le> accessPatternWindowSize (config env)"
    and 2: "length (compressionRatios (run_ops env ops (new_CacheManager fs w))) \<le> 100"
    by (simp_all add: samples_bounded_def)
  have 3: "accessTimes (snd (CacheManager_get env k start now s)) =
     (if fst (CacheManager_get env k start now s) = Inl DecompressionFailed
      then accessTimes s
      else push_bounded (accessPatternWindowSize (config env)) (now - start) (accessTimes s))"
    using get_samples [of env k start now s] by simp
  have 5: "push_bounded (Suc (length xs)) x (y # xs) = xs @ [x]"
    by (simp add: push_bounded_def)
  have 6: "push_bounded 100 r (q # qs) = (if length qs < 99 then q # qs @ [r] else qs @ [r])"
    by (simp add: push_bounded_def)
  show ?thesis
    by (intro conjI 1 2 3 demoteToL2_ratios 5 6)
qed


text \<open>
  The claim as written fails when the configured window is below 100.  With
  \<open>{maxL1Size: 1, compressionThreshold: 1, accessPatternWindowSize: 1}\<close>, three
  \<open>set\<close> calls demote and compress two entries, and the compression-ratio sample
  holds two entries.
\<close>

definition window_one_env :: "string Env" where
  "window_one_env =
     sample_env (mk_config (no_options
       \<lparr>p_maxL1Size := Some 1, p_compressionThreshold := Some 1,
        p_accessPatternWindowSize := Some 1\<rparr>))"

theorem compression_sample_exceeds_window:
  "accessPatternWindowSize (config window_one_env) = 1 \<and>
   length (compressionRatios
     (run_ops window_one_env
        [OpSet ''a'' ''xx'' NORMAL None 1, OpSet ''b'' ''yy'' NORMAL None 2,
         OpSet ''c'' ''zz'' NORMAL None 3]
        (new_CacheManager [] True))) = 2"
  by (simp add: run_ops_def window_one_env_def eval_defs)

section \<open>\<open>clear\<close> (claim C6)\<close>

lemma fold_unlink_fields:
  "l1Cache (fold (\<lambda>kp st. unlink_ignoring (snd kp) st) xs s) = l1Cache s \<and>
   l2Cache (fold (\<lambda>kp st. unlink_ignoring (snd kp) st) xs s) = l2Cache s \<and>
   l3Index (fold (\<lambda>kp st. unlink_ignoring (snd kp) st) xs s) = l3Index s \<and>
   stats (fold (\<lambda>kp st. unlink_ignoring (snd kp) st) xs s) = stats s"
  by (induction xs arbitrary: s) simp_all

lemma clear_tiers:
  "l1Cache (CacheManager_clear env s) = [] \<and> l2Cache (CacheManager_clear env s) = [] \<and>
   l3Index (CacheManager_clear env s) = (if enableDiskCache (config env) then [] else l3Index s) \<and>
   stats (CacheManager_clear env s) = zero_stats"
  by (simp add: CacheManager_clear_def Let_def fold_unlink_fields)

lemma clear_fixed:
  assumes "l1Cache r = []" and "l2Cache r = []" and "stats r = zero_stats"
    and "enableDiskCache (config env) \<longrightarrow> l3Index r = []"
  shows "CacheManager_clear env r = r"
proof -
  have "r\<lparr>l1Cache := [], l2Cache := [], stats := zero_stats\<rparr> = r"
    using assms(1-3) by simp
  moreover have "r\<lparr>l1Cache := [], l2Cache := [], l3Index := [], stats := zero_stats\<rparr> = r"
    if "l3Index r = []"
    using assms(1-3) that by simp
  ultimately show ?thesis
    using assms(4) by (simp add: CacheManager_clear_def Let_def)
qed

lemma clear_idempotent:
  "CacheManager_clear env (CacheManager_clear env s) = CacheManager_clear env s"
  by (rule clear_fixed) (simp_all add: clear_tiers)

text \<open>
  What \<open>clear\<close> does reset: it empties the fast and the compressed tier and, when
  the disk cache is enabled, the disk index; it sets the ten counters to zero, so the
  hit rate is zero; a second \<open>clear\<close> changes nothing.  The two samples are not among
  the fields it assigns: the average access time and the average compression ratio are
  after \<open>clear\<close> what they were before.
\<close>

lemma clear_resets_counters:
  "getSizes (CacheManager_clear env s) =
     (0, 0, if enableDiskCache (config env) then 0 else Map_size (l3Index s)) \<and>
   stats (CacheManager_clear env s) = zero_stats \<and>
   hitRate (getStats (CacheManager_clear env s)) = 0 \<and>
   avgAccessTime (getStats (CacheManager_clear env s)) = avgAccessTime (getStats s) \<and>
   avgCompressionRatio (getStats (CacheManager_clear env s)) = avgCompressionRatio (getStats s) \<and>
   CacheManager_clear env (CacheManager_clear env s) = CacheManager_clear env s"
proof -
  have "getSizes (CacheManager_clear env s) =
     (0, 0, if enableDiskCache (config env) then 0 else Map_size (l3Index s))"
    by (simp add: getSizes_def clear_tiers Map_size_def)
  moreover have "hitRate (getStats (CacheManager_clear env s)) = 0"
    by (simp add: getStats_def clear_tiers zero_stats_def Let_def Stats.extend_def
        CacheStats.fields_def)
  moreover have "avgAccessTime (getStats (CacheManager_clear env s)) = avgAccessTime (getStats s)"
    "avgCompressionRatio (getStats (CacheManager_clear env s)) = avgCompressionRatio (getStats s)"
    by (simp_all add: getStats_def clear_samples Let_def Stats.extend_def CacheStats.fields_def)
  ultimately show ?thesis by (simp add: clear_tiers clear_idempotent)
qed

text \<open>
  Claim C6 does not hold of the code.  After one \<open>get\<close> that took 5 ms (a miss on a
  new manager), \<open>getStats\<close> after \<open>clear\<close>, and after a second \<open>clear\<close>, reports no
  miss and no hit, and an average access time of 5: \<open>clear\<close> resets the counters
  (its comment is \<open>Reset stats\<close>) and not the sample \<open>accessTimes\<close>, from which
  \<open>getStats\<close> derives the average.
\<close>

theorem average_survives_clear:
  "totalMisses (getStats
     (run_ops (sample_env (mk_config no_options)) [OpGet ''k'' 0 5, OpClear]
        (new_CacheManager [] True))) = 0 \<and>
   avgAccessTime (getStats
     (run_ops (sample_env (mk_config no_options)) [OpGet ''k'' 0 5, OpClear]
        (new_CacheManager [] True))) = 5 \<and>
   avgAccessTime (getStats
     (run_ops (sample_env (mk_config no_options)) [OpGet ''k'' 0 5, OpClear, OpClear]
        (new_CacheManager [] True))) = 5"
  by (simp add: run_ops_def eval_defs Stats.extend_def CacheStats.fields_def)

section \<open>\<open>get\<close> on an expired entry of the fast tier (claim C2)\<close>

definition sweep_entry ::
  "int \<Rightarrow> string \<times> 'v CacheEntry \<Rightarrow> (string, 'v CacheEntry) jsmap \<Rightarrow> (string, 'v CacheEntry) jsmap" where
  "sweep_entry now ke m = (if isExpired (snd ke) now then Map_delete m (fst ke) else m)"

lemma Map_has_Map_delete: "Map_has (Map_delete m k) k' \<longleftrightarrow> Map_has m k' \<and> k' \<noteq> k"
  by (auto simp: Map_has_def Map_delete_def)

lemma fold_sweep_sub: "Map_has (fold (sweep_entry now) xs m) k \<Longrightarrow> Map_has m k"
proof (induction xs arbitrary: m)
  case Nil
  then show ?case by simp
next
  case (Cons x xs)
  then have "Map_has (sweep_entry now x m) k" by simp
  then show ?case by (simp add: sweep_entry_def Map_has_Map_delete split: if_splits)
qed

lemma fold_sweep_removes:
  "(k, e) \<in> set xs \<Longrightarrow> isExpired e now \<Longrightarrow> \<not> Map_has (fold (sweep_entry now) xs m) k"
proof (induction xs arbitrary: m)
  case Nil
  then show ?case by simp
next
  case (Cons x xs)
  show ?case
  proof (cases "x = (k, e)")
    case True
    have "\<not> Map_has (Map_delete m k) k" by (simp add: Map_has_Map_delete)
    then have "\<not> Map_has (fold (sweep_entry now) xs (Map_delete m k)) k"
      using fold_sweep_sub by blast
    moreover have "sweep_entry now x m = Map_delete m k"
      using True Cons.prems(2) by (simp add: sweep_entry_def)
    ultimately show ?thesis by simp
  next
    case False
    then have "(k, e) \<in> set xs" using Cons.prems(1) by simp
    then show ?thesis using Cons.IH Cons.prems(2) by simp
  qed
qed

lemma cleanExpiredEntries_l1Cache:
  "l1Cache (cleanExpiredEntries env now s) = fold (sweep_entry now) (l1Cache s) (l1Cache s)"
proof -
  have "fold (\<lambda>ke m'. if isExpired (snd ke) now then Map_delete m' (fst ke) else m')
          (l1Cache s) (l1Cache s) = fold (sweep_entry now) (l1Cache s) (l1Cache s)"
    by (intro fold_cong refl ext) (simp add: sweep_entry_def)
  then show ?thesis by (simp add: cleanExpiredEntries_eq fold_sweep_disk_fields)
qed

text \<open>The state after \<open>set('k', 'v', NORMAL, 100)\<close> at time 0.\<close>

definition ttl_example :: "string CacheManager" where
  "ttl_example =
     CacheManager_set (sample_env (mk_config no_options)) ''k'' ''v'' NORMAL (Some (Ms 100)) 0
       (new_CacheManager [] True)"

text \<open>
  What \<open>get\<close> does on an expired entry.  When the fast tier holds an expired entry
  for the key and no other tier holds the key, \<open>get\<close> returns \<open>null\<close> and counts a
  miss, and it leaves all three tiers as they were.  The maintenance sweep, on the
  same state, removes the key from the fast tier.
\<close>

lemma get_expired_is_miss:
  assumes "Map_get (l1Cache s) k = Some e" and "isExpired e now"
    and "\<not> Map_has (l2Cache s) k" and "\<not> Map_has (l3Index s) k"
  shows "fst (CacheManager_get env k start now s) = Inr None \<and>
    l1Cache (snd (CacheManager_get env k start now s)) = l1Cache s \<and>
    l2Cache (snd (CacheManager_get env k start now s)) = l2Cache s \<and>
    l3Index (snd (CacheManager_get env k start now s)) = l3Index s \<and>
    totalMisses (stats (snd (CacheManager_get env k start now s))) = totalMisses (stats s) + 1 \<and>
    \<not> Map_has (l1Cache (cleanExpiredEntries env now s)) k"
proof -
  have l1: "live (Map_get (l1Cache s) k) now = None"
    using assms(1,2) by (simp add: live_def)
  have l2: "live (Map_get (l2Cache s) k) now = None"
    using assms(3) by (simp add: live_def Map_has_get)
  have l3: "Map_get (l3Index s) k = None"
    using assms(4) by (simp add: Map_has_get)
  have "CacheManager_get env k start now s = (Inr None, recordMiss env (now - start) s)"
    by (simp add: CacheManager_get_def Let_def l1 l2 l3)
  moreover have "(k, e) \<in> set (l1Cache s)"
    using assms(1) by (simp add: Map_get_def map_of_SomeD)
  then have "\<not> Map_has (l1Cache (cleanExpiredEntries env now s)) k"
    using assms(2) by (simp add: cleanExpiredEntries_l1Cache fold_sweep_removes)
  ultimately show ?thesis by (simp add: recordMiss_def)
qed

text \<open>
  Claim C2 does not hold of the code.  After \<open>set('k', 'v', NORMAL, 100)\<close> at time 0
  the \<open>get\<close> at time 150 is a miss, and the key is still in the fast tier after it:
  \<open>get\<close> tests \<open>entry && !this.isExpired(entry)\<close> and goes on to the next tier.  The
  maintenance sweep at the same time removes the key, as \<open>loadFromDisk\<close> removes the
  file of an expired record.
\<close>

theorem expired_entry_not_removed:
  "fst (CacheManager_get (sample_env (mk_config no_options)) ''k'' 150 150 ttl_example)
     = Inr None \<and>
   Map_has
     (l1Cache (snd (CacheManager_get (sample_env (mk_config no_options)) ''k'' 150 150
        ttl_example))) ''k'' \<and>
   \<not> Map_has
     (l1Cache (cleanExpiredEntries (sample_env (mk_config no_options)) 150 ttl_example)) ''k''"
  by (simp add: ttl_example_def eval_defs)

section \<open>Keys in two tiers, stale index entries (claims C1 and C3)\<close>

text \<open>The configuration \<open>{maxL1Size: 1, maxL2Size: 1}\<close>.\<close>

definition tiny_env :: "string Env" where
  "tiny_env = sample_env (mk_config (no_options\<lparr>p_maxL1Size := Some 1, p_maxL2Size := Some 1\<rparr>))"

text \<open>
  Three \<open>set\<close> calls push the first key through the compressed tier to the disk.
\<close>

definition a_on_disk :: "string CacheManager" where
  "a_on_disk =
     run_ops tiny_env
       [OpSet ''a'' ''x'' NORMAL None 1, OpSet ''b'' ''y'' NORMAL None 2,
        OpSet ''c'' ''z'' NORMAL None 3]
       (new_CacheManager [] True)"

lemma a_on_disk_eq:
  "a_on_disk =
     \<lparr> l1Cache = [(''c'', \<lparr>val = Some ''z'', esize = 1, priority = NORMAL, created = 3,
                      accessed = 3, hits = 0, ttl = Some (Ms 3600000), compressed = None,
                      level = L1\<rparr>)],
       l2Cache = [(''b'', \<lparr>val = Some ''y'', esize = 1, priority = NORMAL, created = 2,
                      accessed = 2, hits = 0, ttl = Some (Ms 3600000), compressed = None,
                      level = L2\<rparr>)],
       l3Index = [(''a'', ''./cache/a.cache'')],
       stats = \<lparr>totalHits = 0, totalMisses = 0, l1Hits = 0, l2Hits = 0, l3Hits = 0,
                 evictions = 3, compressions = 0, decompressions = 0, diskWrites = 1,
                 diskReads = 0\<rparr>,
       accessTimes = [], compressionRatios = [], predictiveCache = [],
       files = [(''./cache/a.cache'',
                 Parsed \<lparr>d_key = ''a'', d_data = Plain (Some ''x''), d_priority = NORMAL,
                         d_created = 1, d_ttl = Some 3600000\<rparr>)],
       writable = True \<rparr>"
  by (simp add: a_on_disk_def run_ops_def tiny_env_def eval_defs)

text \<open>The configuration \<open>{maxL1Size: 1}\<close>.\<close>

definition one_slot_env :: "string Env" where
  "one_slot_env = sample_env (mk_config (no_options\<lparr>p_maxL1Size := Some 1\<rparr>))"

text \<open>
  Claim C1 does not hold of the code.  With a fast tier of capacity 1, after
  \<open>set(a)\<close>, \<open>set(b)\<close>, \<open>set(a)\<close> the key \<open>a\<close> is in the fast tier and its older
  entry is still in the compressed tier: \<open>set\<close> does not remove the key from the
  other tiers, as \<open>promoteToL1\<close> does for the tier named by \<open>entry.level\<close>.  And
  after a \<open>get\<close> served from the disk the key is in the fast tier and still in the
  disk index: the entry that \<open>get\<close> promotes is new, with level \<open>l1\<close>.
\<close>

theorem key_in_two_tiers:
  "Map_has (l1Cache (run_ops one_slot_env
       [OpSet ''a'' ''x'' NORMAL None 1, OpSet ''b'' ''y'' NORMAL None 2,
        OpSet ''a'' ''z'' NORMAL None 3] (new_CacheManager [] True))) ''a'' \<and>
   Map_has (l2Cache (run_ops one_slot_env
       [OpSet ''a'' ''x'' NORMAL None 1, OpSet ''b'' ''y'' NORMAL None 2,
        OpSet ''a'' ''z'' NORMAL None 3] (new_CacheManager [] True))) ''a'' \<and>
   fst (CacheManager_get tiny_env ''a'' 4 4 a_on_disk) = Inr (Some ''x'') \<and>
   Map_has (l1Cache (snd (CacheManager_get tiny_env ''a'' 4 4 a_on_disk))) ''a'' \<and>
   Map_has (l3Index (snd (CacheManager_get tiny_env ''a'' 4 4 a_on_disk))) ''a''"
  by (simp add: a_on_disk_eq run_ops_def tiny_env_def one_slot_env_def eval_defs)

text \<open>
  Claim C3 does not hold of the code.  The key \<open>a\<close> is in the disk index.  When its
  file has been removed, or holds text that \<open>JSON.parse\<close> rejects, \<open>get(a)\<close> returns
  \<open>null\<close> and the key is still in the disk index: \<open>loadFromDisk\<close> catches the error
  and returns \<open>null\<close>, so the \<open>catch\<close> block of \<open>get\<close>, which would delete the index
  entry, does not run.
\<close>

theorem stale_index_entry_kept:
  "fst (CacheManager_get tiny_env ''a'' 4 4 (a_on_disk\<lparr>files := []\<rparr>)) = Inr None \<and>
   Map_has (l3Index (snd (CacheManager_get tiny_env ''a'' 4 4 (a_on_disk\<lparr>files := []\<rparr>)))) ''a'' \<and>
   fst (CacheManager_get tiny_env ''a'' 4 4
          (a_on_disk\<lparr>files := [(''./cache/a.cache'', Unparseable)]\<rparr>)) = Inr None \<and>
   Map_has (l3Index (snd (CacheManager_get tiny_env ''a'' 4 4
          (a_on_disk\<lparr>files := [(''./cache/a.cache'', Unparseable)]\<rparr>)))) ''a''"
  by (simp add: a_on_disk_eq tiny_env_def eval_defs)

section \<open>Capacities (claim C4)\<close>

lemma LRU_selectVictim_mem: "LRU_selectVictim m = Some k \<Longrightarrow> k \<in> fst ` set m"
  using LRU_scan_cases [of m None None] by (force simp: LRU_selectVictim_def)

lemma LRU_selectVictim_some:
  "\<exists>x \<in> set m. evictable (snd x) \<Longrightarrow> LRU_selectVictim m \<noteq> None"
  using LRU_scan_cases [of m None None] by (auto simp: LRU_selectVictim_def none_below_def)

lemma LRU_selectVictim_evictable:
  "LRU_selectVictim m = Some k \<Longrightarrow> \<exists>e. (k, e) \<in> set m \<and> evictable e"
  using LRU_scan_cases [of m None None] by (force simp: LRU_selectVictim_def oldest_at_def)

lemma LFU_scan_mem: "LFU_scan m lo v = Some k \<Longrightarrow> v = Some k \<or> k \<in> fst ` set m"
  by (induction m lo v rule: LFU_scan.induct) (auto split: if_splits)

lemma LFU_scan_evictable:
  "LFU_scan m lo v = Some k \<Longrightarrow> v = Some k \<or> (\<exists>e. (k, e) \<in> set m \<and> evictable e)"
  by (induction m lo v rule: LFU_scan.induct) (auto split: if_splits)

lemma LFU_scan_some:
  "v \<noteq> None \<or> (\<exists>x \<in> set m. evictable (snd x) \<and> below (int (hits (snd x))) lo) \<Longrightarrow>
   LFU_scan m lo v \<noteq> None"
proof (induction m lo v rule: LFU_scan.induct)
  case (1 minHits victimKey)
  then show ?case by simp
next
  case (2 k entry entries minHits victimKey)
  show ?case
  proof (cases "evictable entry \<and> below (int (hits entry)) minHits")
    case True
    then have "LFU_scan entries (Some (int (hits entry))) (Some k) \<noteq> None"
      by (intro "2.IH"(1)) simp_all
    then show ?thesis using True by simp
  next
    case False
    then have "victimKey \<noteq> None \<or>
        (\<exists>x \<in> set entries. evictable (snd x) \<and> below (int (hits (snd x))) minHits)"
      using "2.prems" by auto
    then have "LFU_scan entries minHits victimKey \<noteq> None"
      using False by (intro "2.IH"(2)) simp_all
    then show ?thesis using False by auto
  qed
qed

lemma selectVictim_LFU: "selectVictim LFU m = LFU_selectVictim m"
  by (simp add: selectVictim_def)

lemma selectVictim_other: "pol \<noteq> LFU \<Longrightarrow> selectVictim pol m = LRU_selectVictim m"
  by (cases pol) (simp_all add: selectVictim_def)

lemma selectVictim_mem:
  assumes "selectVictim pol m = Some k"
  shows "k \<in> fst ` set m"
proof (cases "pol = LFU")
  case True
  then have "LFU_scan m None None = Some k"
    using assms by (simp add: selectVictim_LFU LFU_selectVictim_def)
  then show ?thesis using LFU_scan_mem [of m None None k] by simp
next
  case False
  then have "LRU_selectVictim m = Some k" using assms by (simp add: selectVictim_other)
  then show ?thesis by (rule LRU_selectVictim_mem)
qed

lemma selectVictim_evictable:
  assumes "selectVictim pol m = Some k"
  shows "\<exists>e. (k, e) \<in> set m \<and> evictable e"
proof (cases "pol = LFU")
  case True
  then have "LFU_scan m None None = Some k"
    using assms by (simp add: selectVictim_LFU LFU_selectVictim_def)
  then show ?thesis using LFU_scan_evictable [of m None None k] by simp
next
  case False
  then have "LRU_selectVictim m = Some k" using assms by (simp add: selectVictim_other)
  then show ?thesis by (rule LRU_selectVictim_evictable)
qed

lemma selectVictim_some:
  assumes "\<exists>x \<in> set m. evictable (snd x)"
  shows "selectVictim pol m \<noteq> None"
proof (cases "pol = LFU")
  case True
  have "None \<noteq> (None :: string option) \<or>
      (\<exists>x \<in> set m. evictable (snd x) \<and> below (int (hits (snd x))) None)"
    using assms by simp
  then have "LFU_scan m None None \<noteq> None" by (rule LFU_scan_some)
  then show ?thesis using True by (simp add: selectVictim_LFU LFU_selectVictim_def)
next
  case False
  have "LRU_selectVictim m \<noteq> None" using assms by (rule LRU_selectVictim_some)
  then show ?thesis using False by (simp add: selectVictim_other)
qed

text \<open>The keys of a map: each one once, as in every \<open>Map\<close>, and none of them empty.\<close>

definition keys_ok :: "(string, 'a) jsmap \<Rightarrow> bool" where
  "keys_ok m = (distinct (map fst m) \<and> (\<forall>x \<in> set m. fst x \<noteq> []))"

lemma set_Map_set: "set (Map_set m k v) \<subseteq> insert (k, v) (set m)"
  by (induction m) (auto split: if_splits)

lemma keys_Map_set: "fst ` set (Map_set m k v) = insert k (fst ` set m)"
proof (induction m)
  case Nil
  then show ?case by simp
next
  case (Cons a m)
  obtain k' v' where a: "a = (k', v')" by (cases a)
  show ?case
  proof (cases "k' = k")
    case True
    then show ?thesis by (simp add: a)
  next
    case False
    then have "fst ` set (Map_set (a # m) k v) = insert k' (fst ` set (Map_set m k v))"
      by (simp add: a)
    then show ?thesis using Cons.IH by (auto simp: a)
  qed
qed

lemma distinct_Map_set: "distinct (map fst m) \<Longrightarrow> distinct (map fst (Map_set m k v))"
proof (induction m)
  case Nil
  then show ?case by simp
next
  case (Cons a m)
  obtain k' v' where a: "a = (k', v')" by (cases a)
  show ?case
  proof (cases "k' = k")
    case True
    then show ?thesis using Cons.prems by (simp add: a)
  next
    case False
    have "k' \<notin> fst ` set (Map_set m k v)"
      using Cons.prems False by (simp add: a keys_Map_set)
    then show ?thesis using Cons False by (simp add: a)
  qed
qed

lemma keys_ok_set: "keys_ok m \<Longrightarrow> k \<noteq> [] \<Longrightarrow> keys_ok (Map_set m k v)"
  using set_Map_set [of m k v] by (auto simp: keys_ok_def distinct_Map_set)

lemma keys_ok_delete: "keys_ok m \<Longrightarrow> keys_ok (Map_delete m k)"
  by (simp add: keys_ok_def Map_delete_def distinct_map_filter)

text \<open>The victim of a loop may be evicted, and a loop that stops has cut the tier down
  to its capacity, or to entries that none may be evicted.\<close>

lemma loop_victim_evictable:
  assumes "distinct (map fst m)" and "loop_victim pol cap m = Some (k, e)"
  shows "evictable e \<and> k \<noteq> []"
proof -
  from assms(2) have sel: "selectVictim pol m = Some k" and k: "k \<noteq> []"
    and get: "Map_get m k = Some e"
    by (auto simp: loop_victim_def split: if_splits option.splits)
  from sel obtain e' where e': "(k, e') \<in> set m" "evictable e'"
    using selectVictim_evictable by blast
  have "map_of m k = Some e'" using assms(1) e'(1) by (rule map_of_is_SomeI)
  then have "e' = e" using get by (simp add: Map_get_def)
  then show ?thesis using e'(2) k by simp
qed

lemma loop_victim_None_cases:
  assumes "\<forall>x \<in> set m. fst x \<noteq> []" and "loop_victim pol cap m = None"
  shows "Map_size m \<le> cap \<or> (\<forall>x \<in> set m. \<not> evictable (snd x))"
proof (rule ccontr)
  assume "\<not> (Map_size m \<le> cap \<or> (\<forall>x \<in> set m. \<not> evictable (snd x)))"
  then have over: "Map_size m > cap" and ex: "\<exists>x \<in> set m. evictable (snd x)" by auto
  from ex obtain k where k: "selectVictim pol m = Some k"
    using selectVictim_some [of m pol] by auto
  then have mem: "k \<in> fst ` set m" by (rule selectVictim_mem)
  then have "k \<noteq> []" using assms(1) by auto
  moreover obtain e where "Map_get m k = Some e"
    using mem by (cases "Map_get m k") (simp_all add: Map_get_def map_of_eq_None_iff)
  ultimately show False using assms(2) over k by (simp add: loop_victim_def)
qed

text \<open>A tier in which every entry may be evicted and no key is the empty string.\<close>

definition evictable_map :: "(string, 'v CacheEntry) jsmap \<Rightarrow> bool" where
  "evictable_map m = (\<forall>x \<in> set m. evictable (snd x) \<and> fst x \<noteq> [])"

lemma evictable_map_delete: "evictable_map m \<Longrightarrow> evictable_map (Map_delete m k)"
  by (simp add: evictable_map_def Map_delete_def)

lemma evictable_map_set:
  "evictable_map m \<Longrightarrow> evictable e \<Longrightarrow> k \<noteq> [] \<Longrightarrow> evictable_map (Map_set m k e)"
  using set_Map_set [of m k e] by (auto simp: evictable_map_def)

lemma loop_victim_None_bound:
  assumes "evictable_map m" and "loop_victim pol cap m = None"
  shows "Map_size m \<le> cap"
proof -
  have "\<forall>x \<in> set m. fst x \<noteq> []" using assms(1) by (simp add: evictable_map_def)
  then have "Map_size m \<le> cap \<or> (\<forall>x \<in> set m. \<not> evictable (snd x))"
    using assms(2) by (rule loop_victim_None_cases)
  then show ?thesis
  proof
    assume "\<forall>x \<in> set m. \<not> evictable (snd x)"
    then have "m = []" using assms(1) by (cases m) (auto simp: evictable_map_def)
    then show ?thesis by (simp add: Map_size_def)
  qed
qed

definition l3_within :: "'v Env \<Rightarrow> 'v CacheManager \<Rightarrow> bool" where
  "l3_within env s = (Map_size (l3Index s) \<le> maxL3Size (config env))"

lemma demoteToL3_l3_within: "l3_within env s \<Longrightarrow> l3_within env (demoteToL3 env k e s)"
  by (simp add: l3_within_def demoteToL3_def Let_def enforceL3Size_bound split: option.splits)

lemma L2_step_l3_within: "l3_within env s \<Longrightarrow> l3_within env (L2_step env k e s)"
  using demoteToL3_l3_within [of env "s\<lparr>l2Cache := Map_delete (l2Cache s) k\<rparr>" k e]
  by (simp add: L2_step_def Let_def l3_within_def)

lemma enforceL2Size_within:
  "evictable_map (l2Cache s) \<and> l3_within env s \<longrightarrow>
   evictable_map (l2Cache (enforceL2Size env s)) \<and>
   Map_size (l2Cache (enforceL2Size env s)) \<le> maxL2Size (config env) \<and>
   l3_within env (enforceL2Size env s)"
proof (induction s rule: enforceL2Size_induct [of env])
  case (stop s)
  then show ?case
    by (subst (1 2 3) enforceL2Size_unfold) (simp add: loop_victim_None_bound)
next
  case (step s k v)
  have "evictable_map (l2Cache (L2_step env k v s)) \<and> l3_within env (L2_step env k v s)"
    if "evictable_map (l2Cache s)" "l3_within env s"
    using that by (simp add: L2_step_l2Cache evictable_map_delete L2_step_l3_within)
  then show ?case
    using step by (subst (1 2 3) enforceL2Size_unfold) simp
qed

lemma demoted_entry_evictable [simp]: "evictable (demoted_entry env e) = evictable e"
  by (simp add: demoted_entry_def evictable_def split: option.splits)

text \<open>
  The keys of the fast tier are not empty; the compressed tier and the disk index are
  within their capacities, and the compressed tier holds only entries that may be
  evicted.
\<close>

definition tiers_within :: "'v Env \<Rightarrow> 'v CacheManager \<Rightarrow> bool" where
  "tiers_within env s =
     (keys_ok (l1Cache s) \<and> evictable_map (l2Cache s) \<and>
      Map_size (l2Cache s) \<le> maxL2Size (config env) \<and> l3_within env s)"

lemma demoteToL2_within:
  assumes "evictable e" and "k \<noteq> []" and "evictable_map (l2Cache s)" and "l3_within env s"
  shows "evictable_map (l2Cache (demoteToL2 env k e s)) \<and>
    Map_size (l2Cache (demoteToL2 env k e s)) \<le> maxL2Size (config env) \<and>
    l3_within env (demoteToL2 env k e s)"
proof -
  let ?s = "(demoted_state env e s)\<lparr>l2Cache := Map_set (l2Cache s) k (demoted_entry env e)\<rparr>"
  have "evictable_map (l2Cache ?s)" using assms(1-3) by (simp add: evictable_map_set)
  moreover have "l3_within env ?s" using assms(4) by (simp add: l3_within_def)
  ultimately show ?thesis
    using enforceL2Size_within [of ?s env] by (simp add: demoteToL2_eq)
qed

lemma L1_step_within:
  assumes "tiers_within env s" and "L1_victim env s = Some (k, e)"
  shows "tiers_within env (L1_step env k e s)"
proof -
  have "distinct (map fst (l1Cache s))"
    using assms(1) by (simp add: tiers_within_def keys_ok_def)
  then have ev: "evictable e \<and> k \<noteq> []"
    using assms(2) by (rule loop_victim_evictable)
  let ?s1 = "s\<lparr>l1Cache := Map_delete (l1Cache s) k\<rparr>"
  have "evictable_map (l2Cache ?s1)" "l3_within env ?s1"
    using assms(1) by (simp_all add: tiers_within_def l3_within_def)
  then have "evictable_map (l2Cache (demoteToL2 env k e ?s1)) \<and>
    Map_size (l2Cache (demoteToL2 env k e ?s1)) \<le> maxL2Size (config env) \<and>
    l3_within env (demoteToL2 env k e ?s1)"
    using ev by (intro demoteToL2_within) simp_all
  moreover have "keys_ok (l1Cache (L1_step env k e s))"
    using assms(1) by (simp add: L1_step_l1Cache tiers_within_def keys_ok_delete)
  ultimately show ?thesis
    by (simp add: tiers_within_def L1_step_def Let_def l3_within_def)
qed

text \<open>
  The fast tier is within its capacity or holds only entries of priority HIGH or
  CRITICAL; the other two tiers are within their capacities.
\<close>

definition within_capacity :: "'v Env \<Rightarrow> 'v CacheManager \<Rightarrow> bool" where
  "within_capacity env s =
     ((Map_size (l1Cache s) \<le> maxL1Size (config env) \<or>
       (\<forall>x \<in> set (l1Cache s). \<not> evictable (snd x))) \<and>
      Map_size (l2Cache s) \<le> maxL2Size (config env) \<and>
      Map_size (l3Index s) \<le> maxL3Size (config env))"

lemma enforceL1Size_within:
  "tiers_within env s \<longrightarrow>
   tiers_within env (enforceL1Size env s) \<and> within_capacity env (enforceL1Size env s)"
proof (induction s rule: enforceL1Size_induct [of env])
  case (stop s)
  have "within_capacity env s" if "tiers_within env s"
  proof -
    have "\<forall>x \<in> set (l1Cache s). fst x \<noteq> []"
      using that by (simp add: tiers_within_def keys_ok_def)
    then have "Map_size (l1Cache s) \<le> maxL1Size (config env) \<or>
        (\<forall>x \<in> set (l1Cache s). \<not> evictable (snd x))"
      using stop by (rule loop_victim_None_cases)
    then show ?thesis using that by (simp add: within_capacity_def tiers_within_def l3_within_def)
  qed
  then show ?case using stop by (subst (1 2) enforceL1Size_unfold) simp
next
  case (step s k v)
  then show ?case
    using L1_step_within [of env s k v]
    by (subst (1 2) enforceL1Size_unfold) simp
qed

lemma set_within:
  assumes "tiers_within env s" and "k \<noteq> []"
  shows "tiers_within env (CacheManager_set env k v p ttlArg now s) \<and>
    within_capacity env (CacheManager_set env k v p ttlArg now s)"
proof -
  let ?E = "onAdd (evictionPolicy (config env)) now (createEntry env v p ttlArg now)"
  let ?s0 = "s\<lparr>l1Cache := Map_set (l1Cache s) k ?E\<rparr>"
  have "tiers_within env ?s0"
    using assms by (simp add: tiers_within_def keys_ok_set l3_within_def)
  then have "tiers_within env (enforceL1Size env ?s0) \<and>
    within_capacity env (enforceL1Size env ?s0)"
    using enforceL1Size_within by blast
  then show ?thesis
    by (simp add: CacheManager_set_def Let_def updatePredictiveCache_def tiers_within_def
        within_capacity_def l3_within_def)
qed

text \<open>A \<open>set\<close> call with a key that is not empty.\<close>

fun keyed_set :: "'v Op \<Rightarrow> bool" where
  "keyed_set (OpSet k v p ttlArg now) = (k \<noteq> [])"
| "keyed_set (OpGet k start now) = False"
| "keyed_set (OpDelete k) = False"
| "keyed_set OpClear = False"
| "keyed_set (OpMaintenance now) = False"

definition all_within :: "'v Env \<Rightarrow> 'v CacheManager \<Rightarrow> bool" where
  "all_within env s = (tiers_within env s \<and> within_capacity env s)"

lemma apply_op_all_within:
  assumes "all_within env s" and "keyed_set op"
  shows "all_within env (apply_op env op s)"
proof (cases op)
  case (OpSet k v p ttlArg now)
  then have "k \<noteq> []" using assms(2) by simp
  moreover have "tiers_within env s" using assms(1) by (simp add: all_within_def)
  ultimately show ?thesis
    using set_within [of env s k v p ttlArg now] OpSet by (simp add: all_within_def)
qed (use assms(2) in simp_all)

lemma run_ops_all_within:
  "all_within env s \<Longrightarrow> \<forall>op \<in> set ops. keyed_set op \<Longrightarrow>
   all_within env (run_ops env ops s)"
  unfolding run_ops_def
  by (induction ops arbitrary: s) (simp_all add: apply_op_all_within)

text \<open>
  Claim C4, as the code has it.  After any sequence of \<open>set\<close> calls on a new manager,
  of any priorities and with keys that are not empty, the fast tier holds at most
  \<open>maxL1Size\<close> entries or holds only entries of priority HIGH or CRITICAL, which no
  policy evicts; the compressed tier holds at most \<open>maxL2Size\<close> entries, all of
  priority LOW or NORMAL, and the disk index at most \<open>maxL3Size\<close> keys.  (The sequence
  is arbitrary, so this holds after each call.)
\<close>

theorem capacity_or_pinned_after_sets:
  assumes "\<forall>op \<in> set ops. keyed_set op"
  shows
    "(Map_size (l1Cache (run_ops env ops (new_CacheManager fs w))) \<le> maxL1Size (config env) \<or>
      (\<forall>x \<in> set (l1Cache (run_ops env ops (new_CacheManager fs w))).
         priority (snd x) \<in> {HIGH, CRITICAL})) \<and>
     Map_size (l2Cache (run_ops env ops (new_CacheManager fs w))) \<le> maxL2Size (config env) \<and>
     (\<forall>x \<in> set (l2Cache (run_ops env ops (new_CacheManager fs w))).
        priority (snd x) \<in> {LOW, NORMAL}) \<and>
     Map_size (l3Index (run_ops env ops (new_CacheManager fs w))) \<le> maxL3Size (config env)"
proof -
  let ?S = "run_ops env ops (new_CacheManager fs w)"
  have "all_within env (new_CacheManager fs w)"
    by (simp add: all_within_def tiers_within_def within_capacity_def l3_within_def
        evictable_map_def keys_ok_def new_CacheManager_def Map_size_def)
  then have "all_within env ?S"
    using assms by (rule run_ops_all_within)
  then have w: "within_capacity env ?S" and e: "evictable_map (l2Cache ?S)"
    by (simp_all add: all_within_def tiers_within_def)
  have 1: "Map_size (l1Cache ?S) \<le> maxL1Size (config env) \<or>
      (\<forall>x \<in> set (l1Cache ?S). priority (snd x) \<in> {HIGH, CRITICAL})"
    using w unfolding within_capacity_def not_evictable_iff by simp
  have 2: "\<forall>x \<in> set (l2Cache ?S). priority (snd x) \<in> {LOW, NORMAL}"
    using e unfolding evictable_map_def evictable_iff by simp
  show ?thesis using 1 2 w by (simp add: within_capacity_def)
qed

theorem capacity_or_pinned_after_sets_witness:
  "keyed_set (OpSet ''a'' ''x'' HIGH None 1 :: string Op) \<and>
   keyed_set (OpSet ''b'' ''y'' NORMAL None 2 :: string Op) \<and>
   keyed_set (OpSet ''c'' ''z'' CRITICAL None 3 :: string Op) \<and>
   keyed_set (OpSet ''d'' ''w'' LOW None 4 :: string Op) \<and>
   map fst (l1Cache (run_ops tiny_env
     [OpSet ''a'' ''x'' HIGH None 1, OpSet ''b'' ''y'' NORMAL None 2,
      OpSet ''c'' ''z'' CRITICAL None 3, OpSet ''d'' ''w'' LOW None 4]
     (new_CacheManager [] True))) = [''a'', ''c''] \<and>
   maxL1Size (config tiny_env) = 1 \<and>
   list_all (\<lambda>x. priority (snd x) \<in> {HIGH, CRITICAL})
     (l1Cache (run_ops tiny_env
       [OpSet ''a'' ''x'' HIGH None 1, OpSet ''b'' ''y'' NORMAL None 2,
        OpSet ''c'' ''z'' CRITICAL None 3, OpSet ''d'' ''w'' LOW None 4]
       (new_CacheManager [] True))) \<and>
   Map_size (l2Cache (run_ops tiny_env
     [OpSet ''a'' ''x'' HIGH None 1, OpSet ''b'' ''y'' NORMAL None 2,
      OpSet ''c'' ''z'' CRITICAL None 3, OpSet ''d'' ''w'' LOW None 4]
     (new_CacheManager [] True))) \<le> maxL2Size (config tiny_env) \<and>
   Map_size (l3Index (run_ops tiny_env
     [OpSet ''a'' ''x'' HIGH None 1, OpSet ''b'' ''y'' NORMAL None 2,
      OpSet ''c'' ''z'' CRITICAL None 3, OpSet ''d'' ''w'' LOW None 4]
     (new_CacheManager [] True))) \<le> maxL3Size (config tiny_env)"
proof -
  let ?ops = "[OpSet ''a'' ''x'' HIGH None 1, OpSet ''b'' ''y'' NORMAL None 2,
      OpSet ''c'' ''z'' CRITICAL None 3, OpSet ''d'' ''w'' LOW None 4 :: string Op]"
  let ?S = "run_ops tiny_env ?ops (new_CacheManager [] True)"
  have h: "\<forall>op \<in> set ?ops. keyed_set op" by simp
  have k: "map fst (l1Cache ?S) = [''a'', ''c'']"
    by (simp add: run_ops_def tiny_env_def eval_defs)
  have m: "maxL1Size (config tiny_env) = 1" by (simp add: tiny_env_def eval_defs)
  have "\<not> Map_size (l1Cache ?S) \<le> maxL1Size (config tiny_env)"
    using k m by (simp add: Map_size_def flip: length_map [of fst])
  with capacity_or_pinned_after_sets [OF h, of tiny_env "[]" True]
  show ?thesis using k m by (simp add: list_all_iff)
qed

text \<open>
  The claim as written fails: entries of priority HIGH are never victims, so two
  such \<open>set\<close> calls leave two entries in a fast tier of capacity 1.
\<close>

theorem pinned_entries_exceed_capacity:
  "maxL1Size (config one_slot_env) = 1 \<and>
   Map_size (l1Cache (run_ops one_slot_env
     [OpSet ''a'' ''x'' HIGH None 1, OpSet ''b'' ''y'' HIGH None 2]
     (new_CacheManager [] True))) = 2"
  by (simp add: run_ops_def one_slot_env_def eval_defs)

section \<open>The TTL of an entry created by \<open>set\<close> (claim C10)\<close>









section \<open>\<open>set\<close>, then \<open>get\<close> (claim C5)\<close>





lemma demoted_entry_fields [simp]:
  "created (demoted_entry env e) = created e"
  "priority (demoted_entry env e) = priority e"
  by (simp_all add: demoted_entry_def split: option.splits)






















end
